theory Spec2Isabelle
  imports Complex_Main "HOL-Library.Word" "HOL-Library.Log_Nat" "HOL-Library.Multiset"
begin

section \<open>IEEE 754 binary64 values, as Go's float64 uses them\<close>

text \<open>
  A float64 is a finite rational, negative zero, an infinity or NaN. \<open>Fin 0\<close> is
  positive zero. Every operation computes the exact rational result and rounds it to
  the nearest binary64 value, ties to even: 53 significant bits, exponents from -1022
  (subnormal numbers below) to 1023, overflow to an infinity.
\<close>

datatype float64 = Fin rat | NegZero | PInf | NInf | NaN

text \<open>The exponent of a positive rational: \<open>2 powi ilog2 q \<le> q < 2 powi (ilog2 q + 1)\<close>.\<close>

definition ilog2 :: "rat \<Rightarrow> int" where
  "ilog2 q = (if 1 \<le> q then bitlen \<lfloor>q\<rfloor> - 1 else - bitlen (\<lceil>1 / q\<rceil> - 1))"

text \<open>Rounding to the nearest integer, ties to the even one.\<close>

definition rne :: "rat \<Rightarrow> int" where
  "rne x = (let f = \<lfloor>x\<rfloor>; d = x - of_int f in
      if d < 1 / 2 then f else if 1 / 2 < d then f + 1 else if even f then f else f + 1)"

definition round64 :: "rat \<Rightarrow> float64" where
  "round64 q = (if q = 0 then Fin 0 else
     let e = max (ilog2 \<bar>q\<bar>) (- 1022);
         u = 2 powi (e - 52);
         r = of_int (rne (q / u)) * u
     in if 2 ^ 1024 \<le> \<bar>r\<bar> then (if 0 < q then PInf else NInf)
        else if r = 0 then (if 0 < q then Fin 0 else NegZero)
        else Fin r)"

definition is_nan :: "float64 \<Rightarrow> bool" where
  "is_nan x = (case x of NaN \<Rightarrow> True | _ \<Rightarrow> False)"

definition is_inf :: "float64 \<Rightarrow> bool" where
  "is_inf x = (case x of PInf \<Rightarrow> True | NInf \<Rightarrow> True | _ \<Rightarrow> False)"

definition signbit :: "float64 \<Rightarrow> bool" where
  "signbit x = (case x of Fin q \<Rightarrow> q < 0 | NegZero \<Rightarrow> True | NInf \<Rightarrow> True | _ \<Rightarrow> False)"

definition valof :: "float64 \<Rightarrow> rat" where
  "valof x = (case x of Fin q \<Rightarrow> q | _ \<Rightarrow> 0)"

definition signed_zero :: "bool \<Rightarrow> float64" where
  "signed_zero neg = (if neg then NegZero else Fin 0)"

definition signed_inf :: "bool \<Rightarrow> float64" where
  "signed_inf neg = (if neg then NInf else PInf)"

text \<open>Go's \<open>a + b\<close> on float64.\<close>

fun fadd :: "float64 \<Rightarrow> float64 \<Rightarrow> float64" where
  "fadd NaN b = NaN"
| "fadd a NaN = NaN"
| "fadd PInf NInf = NaN"
| "fadd NInf PInf = NaN"
| "fadd PInf b = PInf"
| "fadd a PInf = PInf"
| "fadd NInf b = NInf"
| "fadd a NInf = NInf"
| "fadd NegZero b = b"
| "fadd a NegZero = a"
| "fadd (Fin a) (Fin b) = round64 (a + b)"

text \<open>Go's \<open>a / b\<close> on float64.\<close>

definition fdiv :: "float64 \<Rightarrow> float64 \<Rightarrow> float64" where
  "fdiv a b =
     (if is_nan a \<or> is_nan b then NaN
      else if is_inf a then (if is_inf b then NaN else signed_inf (signbit a \<noteq> signbit b))
      else if is_inf b then signed_zero (signbit a \<noteq> signbit b)
      else if valof b = 0 then
        (if valof a = 0 then NaN else signed_inf (signbit a \<noteq> signbit b))
      else if valof a = 0 then signed_zero (signbit a \<noteq> signbit b)
      else round64 (valof a / valof b))"

text \<open>Go's conversion \<open>float64(n)\<close> of a 64-bit signed integer.\<close>

definition float64_of_int64 :: "64 word \<Rightarrow> float64" where
  "float64_of_int64 n = round64 (of_int (sint n))"

section \<open>The data model of the timeline export\<close>

record Location =
  LatitudeE7 :: "64 word"
  LongitudeE7 :: "64 word"

record DurationT =
  StartTimestamp :: string

text \<open>\<open>Distance\<close> is a Go \<open>int\<close>: 64 bits on the 64-bit targets modelled here.\<close>

record ActivitySegment =
  StartLocation :: Location
  EndLocation :: Location
  Distance :: "64 word"
  Duration :: DurationT

record TimelineObject =
  ActivitySegment :: "ActivitySegment option"

record TimelineData =
  TimelineObjects :: "TimelineObject list"

section \<open>Coordinate conversion\<close>

definition toFloatCoord :: "64 word \<Rightarrow> float64" where
  "toFloatCoord coordE7 = fdiv (float64_of_int64 coordE7) (Fin 10000000)"

section \<open>Formatting\<close>

definition digitChar :: "nat \<Rightarrow> char" where
  "digitChar n = char_of (48 + n)"

fun showNat :: "nat \<Rightarrow> string" where
  "showNat n = (if n < 10 then [digitChar n] else showNat (n div 10) @ [digitChar (n mod 10)])"

declare showNat.simps [simp del]

definition padZero :: "nat \<Rightarrow> string \<Rightarrow> string" where
  "padZero w s = replicate (w - length s) (CHR ''0'') @ s"

text \<open>
  Go's \<open>%.<prec>f\<close> verb (\<open>%f\<close> is \<open>%.6f\<close>): the exact value rounded to \<open>prec\<close> decimals,
  ties to even, with the sign of the sign bit.
\<close>

definition fmtFloat :: "nat \<Rightarrow> float64 \<Rightarrow> string" where
  "fmtFloat prec x =
     (case x of
        NaN \<Rightarrow> ''NaN''
      | PInf \<Rightarrow> ''+Inf''
      | NInf \<Rightarrow> ''-Inf''
      | _ \<Rightarrow>
         (let n = nat (rne (\<bar>valof x\<bar> * 10 ^ prec)) in
            (if signbit x then ''-'' else []) @ showNat (n div 10 ^ prec) @
            (if prec = 0 then [] else ''.'' @ padZero prec (showNat (n mod 10 ^ prec)))))"

section \<open>The coordinate resolver\<close>

text \<open>A Go \<open>error\<close> value: one kind, told apart by its message only.\<close>

datatype error = Error string

text \<open>
  What one request to the reverse-geocoding service comes to: \<open>client.Get\<close> fails, or
  decoding the body fails, or the body decodes and \<open>result.Address.CountryCode\<close> holds
  the given string (empty when the field is absent).
\<close>

datatype lookup_result = GetFailed error | DecodeFailed error | Decoded string

text \<open>
  \<open>u.String()\<close>: \<open>params.Encode()\<close> writes the parameters sorted by key. The digits,
  point and minus sign of a finite coordinate need no escaping.
\<close>

definition requestURL :: "float64 \<Rightarrow> float64 \<Rightarrow> string" where
  "requestURL lat lng =
     ''https://nominatim.openstreetmap.org/reverse'' @ ''?'' @
     ''format=json'' @ ''&lat='' @ fmtFloat 6 lat @ ''&lon='' @ fmtFloat 6 lng @ ''&zoom=3''"

text \<open>
  \<open>getCountryCode\<close>, given what the request to a URL comes to. \<open>url.Parse\<close> of the
  constant base URL does not fail.
\<close>

definition getCountryCode :: "(string \<Rightarrow> lookup_result) \<Rightarrow> float64 \<Rightarrow> float64 \<Rightarrow> error + string" where
  "getCountryCode get lat lng =
     (case get (requestURL lat lng) of
        GetFailed err \<Rightarrow> Inl err
      | DecodeFailed err \<Rightarrow> Inl err
      | Decoded countryCode \<Rightarrow>
          if countryCode \<noteq> [] then Inr countryCode
          else Inl (Error (''no country found for lat: '' @ fmtFloat 6 lat @
                           '', lng: '' @ fmtFloat 6 lng)))"

section \<open>Timestamps\<close>

text \<open>
  \<open>time.Parse(time.RFC3339, s)\<close> and \<open>Format("2006-01-02")\<close>. A parsed time keeps the
  zone offset it was written with, and formatting shows the time in that zone: the
  model keeps the wall-clock fields and the offset in seconds.
\<close>

record Time =
  year :: nat
  month :: nat
  day :: nat
  hour :: nat
  minute :: nat
  second :: nat
  zoneOffset :: int

definition isDigit :: "char \<Rightarrow> bool" where
  "isDigit c = (48 \<le> (of_char c :: nat) \<and> (of_char c :: nat) \<le> 57)"

definition digitVal :: "char \<Rightarrow> nat" where
  "digitVal c = of_char c - 48"

text \<open>\<open>getnum\<close>: one or two leading digits; exactly two when \<open>fixed\<close>.\<close>

definition getnum :: "bool \<Rightarrow> string \<Rightarrow> (nat \<times> string) option" where
  "getnum fixed s =
     (case s of
        [] \<Rightarrow> None
      | a # r \<Rightarrow>
          if \<not> isDigit a then None
          else (case r of
                  [] \<Rightarrow> if fixed then None else Some (digitVal a, r)
                | b # r' \<Rightarrow>
                    if \<not> isDigit b then (if fixed then None else Some (digitVal a, r))
                    else Some (digitVal a * 10 + digitVal b, r')))"

text \<open>The four-digit year.\<close>

definition getyear :: "string \<Rightarrow> (nat \<times> string) option" where
  "getyear s =
     (if length s < 4 \<or> \<not> list_all isDigit (take 4 s) then None
      else Some (foldl (\<lambda>n c. n * 10 + digitVal c) 0 (take 4 s), drop 4 s))"

text \<open>A literal character of the layout.\<close>

definition expect :: "char \<Rightarrow> string \<Rightarrow> string option" where
  "expect c s = (case s of [] \<Rightarrow> None | a # r \<Rightarrow> if a = c then Some r else None)"

text \<open>A fractional second in the input, which the layout does not name, is accepted.\<close>

definition skipFraction :: "string \<Rightarrow> string" where
  "skipFraction s =
     (case s of
        a # b # r \<Rightarrow>
          if (a = CHR ''.'' \<or> a = CHR '','') \<and> isDigit b then dropWhile isDigit r else s
      | _ \<Rightarrow> s)"

text \<open>
  The zone: \<open>Z\<close>, or a sign, two digits, a colon and two digits; an offset of up to 24
  hours and 60 minutes is let through, as the library does.
\<close>

definition getzone :: "string \<Rightarrow> (int \<times> string) option" where
  "getzone s =
     (if s \<noteq> [] \<and> hd s = CHR ''Z'' then Some (0, tl s)
      else if length s < 6 then None
      else if s ! 3 \<noteq> CHR '':'' then None
      else (case getnum True (take 2 (drop 1 s)) of
              None \<Rightarrow> None
            | Some (hr, _) \<Rightarrow>
               (case getnum True (take 2 (drop 4 s)) of
                  None \<Rightarrow> None
                | Some (mm, _) \<Rightarrow>
                    if 24 < hr \<or> 60 < mm then None
                    else if s ! 0 = CHR ''+'' then Some (int ((hr * 60 + mm) * 60), drop 6 s)
                    else if s ! 0 = CHR ''-'' then Some (- int ((hr * 60 + mm) * 60), drop 6 s)
                    else None)))"

definition isLeap :: "nat \<Rightarrow> bool" where
  "isLeap y = (y mod 4 = 0 \<and> (y mod 100 \<noteq> 0 \<or> y mod 400 = 0))"

definition daysIn :: "nat \<Rightarrow> nat \<Rightarrow> nat" where
  "daysIn m y =
     (if m = 2 then (if isLeap y then 29 else 28)
      else if m = 4 \<or> m = 6 \<or> m = 9 \<or> m = 11 then 30 else 31)"

text \<open>The date part of the layout, \<open>2006-01-02\<close>.\<close>

definition parseDate :: "string \<Rightarrow> (nat \<times> nat \<times> nat \<times> string) option" where
  "parseDate s =
     Option.bind (getyear s) (\<lambda>(y, s1).
     Option.bind (expect (CHR ''-'') s1) (\<lambda>s2.
     Option.bind (getnum True s2) (\<lambda>(mo, s3).
     if mo = 0 \<or> 12 < mo then None else
     Option.bind (expect (CHR ''-'') s3) (\<lambda>s4.
     Option.bind (getnum True s4) (\<lambda>(d, s5).
     Some (y, mo, d, s5))))))"

text \<open>The clock part, \<open>15:04:05\<close>: the hour may have one digit.\<close>

definition parseClock :: "string \<Rightarrow> (nat \<times> nat \<times> nat \<times> string) option" where
  "parseClock s =
     Option.bind (getnum False s) (\<lambda>(h, s1).
     if 24 \<le> h then None else
     Option.bind (expect (CHR '':'') s1) (\<lambda>s2.
     Option.bind (getnum True s2) (\<lambda>(mi, s3).
     if 60 \<le> mi then None else
     Option.bind (expect (CHR '':'') s3) (\<lambda>s4.
     Option.bind (getnum True s4) (\<lambda>(sec, s5).
     if 60 \<le> sec then None else Some (h, mi, sec, s5))))))"

text \<open>
  \<open>None\<close> stands for the error that \<open>time.Parse\<close> returns. The day of the month is
  checked last, and no text may follow the zone.
\<close>

definition parseRFC3339 :: "string \<Rightarrow> Time option" where
  "parseRFC3339 s =
     Option.bind (parseDate s) (\<lambda>(y, mo, d, s1).
     Option.bind (expect (CHR ''T'') s1) (\<lambda>s2.
     Option.bind (parseClock s2) (\<lambda>(h, mi, sec, s3).
     Option.bind (getzone (skipFraction s3)) (\<lambda>(off, s4).
     if s4 \<noteq> [] then None
     else if d < 1 \<or> daysIn mo y < d then None
     else Some \<lparr>year = y, month = mo, day = d, hour = h, minute = mi, second = sec,
                 zoneOffset = off\<rparr>))))"

text \<open>\<open>t.Format("2006-01-02")\<close>.\<close>

definition formatDate :: "Time \<Rightarrow> string" where
  "formatDate t =
     padZero 4 (showNat (year t)) @ ''-'' @ padZero 2 (showNat (month t)) @ ''-'' @
     padZero 2 (showNat (day t))"

section \<open>The program\<close>

text \<open>
  \<open>countryDistancesByDay\<close>: kilometres per country and per day. A country that is not a
  key has no inner map yet.
\<close>

type_synonym report = "string \<rightharpoonup> (string \<rightharpoonup> float64)"

text \<open>
  Lines 126 to 131: the inner map is made when the country has none, and the bucket of
  the date, which reads as 0 when the date is not a key, grows by the distance.
\<close>

definition addDistance :: "report \<Rightarrow> string \<Rightarrow> string \<Rightarrow> float64 \<Rightarrow> report" where
  "addDistance m startCountry date km =
     (let m' = (if m startCountry = None then m(startCountry \<mapsto> Map.empty) else m);
          inner = (case m' startCountry of None \<Rightarrow> Map.empty | Some i \<Rightarrow> i);
          old = (case inner date of None \<Rightarrow> Fin 0 | Some v \<Rightarrow> v)
      in m'(startCountry \<mapsto> inner(date \<mapsto> fadd old km)))"

text \<open>What the program prints on standard output, one value for each \<open>fmt.Printf\<close>.\<close>

datatype event =
    ErrReadingFile error
  | ErrParsingFile error
  | ErrGettingCountry float64 float64 error
  | ErrParsingTimestamp string
  | ErrCreatingFile error
  | ReportSaved string

text \<open>
  The world outside the program: the input file and its decoding, the answer to the
  k-th request (counted from 0) for its URL, today's date, whether the report file can
  be created, whether the k-th \<open>WriteString\<close> succeeds, and the order in which
  \<open>range\<close> visits the keys of a map, which Go leaves open.
\<close>

record world =
  readFile :: "error + string"
  jsonUnmarshal :: "string \<Rightarrow> error + TimelineData"
  httpGet :: "nat \<Rightarrow> string \<Rightarrow> lookup_result"
  today :: string
  osCreate :: "string \<Rightarrow> error option"
  writeString :: "nat \<Rightarrow> string \<Rightarrow> error option"
  rangeCountries :: "string list"
  rangeDates :: "string \<Rightarrow> string list"

record loop_state =
  countryDistancesByDay :: report
  printed :: "event list"
  requests :: nat

definition kilometres :: "ActivitySegment \<Rightarrow> float64" where
  "kilometres seg = fdiv (float64_of_int64 (Distance seg)) (Fin 1000)"

text \<open>The body of the loop of lines 105 to 133, for an object with a segment.\<close>

definition processSegment :: "world \<Rightarrow> loop_state \<Rightarrow> ActivitySegment \<Rightarrow> loop_state" where
  "processSegment w st seg =
     (let startLat = toFloatCoord (LatitudeE7 (StartLocation seg));
          startLng = toFloatCoord (LongitudeE7 (StartLocation seg));
          st' = st\<lparr>requests := requests st + 1\<rparr>
      in case getCountryCode (httpGet w (requests st)) startLat startLng of
           Inl err \<Rightarrow> st'\<lparr>printed := printed st' @ [ErrGettingCountry startLat startLng err]\<rparr>
         | Inr startCountry \<Rightarrow>
            (case parseRFC3339 (StartTimestamp (Duration seg)) of
               None \<Rightarrow>
                 st'\<lparr>printed := printed st' @ [ErrParsingTimestamp (StartTimestamp (Duration seg))]\<rparr>
             | Some startTime \<Rightarrow>
                 st'\<lparr>countryDistancesByDay :=
                       addDistance (countryDistancesByDay st') startCountry
                         (formatDate startTime) (kilometres seg)\<rparr>))"

definition loopBody :: "world \<Rightarrow> loop_state \<Rightarrow> TimelineObject \<Rightarrow> loop_state" where
  "loopBody w st obj =
     (case ActivitySegment obj of None \<Rightarrow> st | Some seg \<Rightarrow> processSegment w st seg)"

definition initial :: loop_state where
  "initial = \<lparr>countryDistancesByDay = Map.empty, printed = [], requests = 0\<rparr>"

definition runLoop :: "world \<Rightarrow> TimelineObject list \<Rightarrow> loop_state" where
  "runLoop w objs = foldl (loopBody w) initial objs"

subsection \<open>Rendering\<close>

definition headerLine :: string where
  "headerLine = ''Total distance traveled in each country per day (in kilometers):'' @ [CHR 0x0A]"

definition countryLine :: "string \<Rightarrow> string" where
  "countryLine country = ''Country: '' @ country @ [CHR 0x0A]"

definition dateLine :: "string \<Rightarrow> float64 \<Rightarrow> string" where
  "dateLine date distance = ''  '' @ date @ '': '' @ fmtFloat 2 distance @ '' km'' @ [CHR 0x0A]"

text \<open>
  The strings handed to \<open>WriteString\<close>, in order, when \<open>range\<close> visits the countries
  in the order \<open>cs\<close> and the dates of a country \<open>c\<close> in the order \<open>ds c\<close>.
\<close>

definition countryBlock :: "(string \<Rightarrow> string list) \<Rightarrow> report \<Rightarrow> string \<Rightarrow> string list" where
  "countryBlock ds m country =
     (case m country of
        None \<Rightarrow> []
      | Some dateDistances \<Rightarrow>
          countryLine country #
          concat (map (\<lambda>date. case dateDistances date of
                                None \<Rightarrow> [] | Some distance \<Rightarrow> [dateLine date distance])
                      (ds country)))"

definition renderReport :: "string list \<Rightarrow> (string \<Rightarrow> string list) \<Rightarrow> report \<Rightarrow> string list" where
  "renderReport cs ds m = headerLine # concat (map (countryBlock ds m) cs)"

text \<open>An order in which \<open>range\<close> may visit a map: each key once.\<close>

definition rangeOrder :: "('k \<rightharpoonup> 'v) \<Rightarrow> 'k list \<Rightarrow> bool" where
  "rangeOrder m ks = (distinct ks \<and> set ks = dom m)"

definition rangeOrders :: "report \<Rightarrow> string list \<Rightarrow> (string \<Rightarrow> string list) \<Rightarrow> bool" where
  "rangeOrders m cs ds =
     (rangeOrder m cs \<and> list_all (\<lambda>c. case m c of None \<Rightarrow> False | Some i \<Rightarrow> rangeOrder i (ds c)) cs)"

subsection \<open>The whole run\<close>

record outcome =
  exitCode :: nat
  stdout :: "event list"
  reportFile :: "(string \<times> string list) option"

text \<open>
  The strings that reach the file: the result of \<open>WriteString\<close> is dropped, so a
  failed write leaves its string out and the run goes on.
\<close>

fun written :: "(nat \<Rightarrow> string \<Rightarrow> error option) \<Rightarrow> nat \<Rightarrow> string list \<Rightarrow> string list" where
  "written wr k [] = []"
| "written wr k (s # ss) =
     (case wr k s of None \<Rightarrow> s # written wr (k + 1) ss | Some err \<Rightarrow> written wr (k + 1) ss)"

definition main :: "world \<Rightarrow> outcome" where
  "main w =
     (case readFile w of
        Inl err \<Rightarrow> \<lparr>exitCode = 1, stdout = [ErrReadingFile err], reportFile = None\<rparr>
      | Inr data \<Rightarrow>
         (case jsonUnmarshal w data of
            Inl err \<Rightarrow> \<lparr>exitCode = 1, stdout = [ErrParsingFile err], reportFile = None\<rparr>
          | Inr timeline \<Rightarrow>
             (let st = runLoop w (TimelineObjects timeline);
                  outputFilename = ''distance_report_'' @ today w @ ''.txt''
              in case osCreate w outputFilename of
                   Some err \<Rightarrow>
                     \<lparr>exitCode = 1, stdout = printed st @ [ErrCreatingFile err],
                      reportFile = None\<rparr>
                 | None \<Rightarrow>
                     \<lparr>exitCode = 0, stdout = printed st @ [ReportSaved outputFilename],
                      reportFile = Some (outputFilename,
                        written (writeString w) 0
                          (renderReport (rangeCountries w) (rangeDates w)
                             (countryDistancesByDay st)))\<rparr>)))"
section \<open>Segments, resolved segments and buckets\<close>

text \<open>The segments the loop works on: the payloads of the objects that carry one, in order.\<close>

definition extractSegments :: "TimelineObject list \<Rightarrow> ActivitySegment list" where
  "extractSegments objs =
     concat (map (\<lambda>obj. case ActivitySegment obj of None \<Rightarrow> [] | Some seg \<Rightarrow> [seg]) objs)"

text \<open>
  A resolved segment: country, date and kilometres of a segment whose lookup, made as
  request \<open>k\<close>, and whose timestamp both succeed.
\<close>

definition resolveSegment :: "world \<Rightarrow> nat \<Rightarrow> ActivitySegment \<Rightarrow> (string \<times> string \<times> float64) option" where
  "resolveSegment w k seg =
     (case getCountryCode (httpGet w k) (toFloatCoord (LatitudeE7 (StartLocation seg)))
             (toFloatCoord (LongitudeE7 (StartLocation seg))) of
        Inl err \<Rightarrow> None
      | Inr country \<Rightarrow>
          (case parseRFC3339 (StartTimestamp (Duration seg)) of
             None \<Rightarrow> None
           | Some t \<Rightarrow> Some (country, formatDate t, kilometres seg)))"

fun resolved :: "world \<Rightarrow> nat \<Rightarrow> ActivitySegment list \<Rightarrow> (string \<times> string \<times> float64) list" where
  "resolved w k [] = []"
| "resolved w k (seg # segs) =
     (case resolveSegment w k seg of
        None \<Rightarrow> resolved w (k + 1) segs
      | Some r \<Rightarrow> r # resolved w (k + 1) segs)"

definition bucket :: "report \<Rightarrow> string \<Rightarrow> string \<Rightarrow> float64 option" where
  "bucket m country date = (case m country of None \<Rightarrow> None | Some inner \<Rightarrow> inner date)"

definition contributions :: "(string \<times> string \<times> float64) list \<Rightarrow> string \<Rightarrow> string \<Rightarrow> float64 list" where
  "contributions rs country date = map (\<lambda>r. snd (snd r)) (filter (\<lambda>r. fst r = country \<and> fst (snd r) = date) rs)"

definition aggregate :: "report \<Rightarrow> (string \<times> string \<times> float64) list \<Rightarrow> report" where
  "aggregate m rs = foldl (\<lambda>m r. addDistance m (fst r) (fst (snd r)) (snd (snd r))) m rs"

definition skipped :: "world \<Rightarrow> nat \<Rightarrow> ActivitySegment \<Rightarrow> bool" where
  "skipped w k seg =
     (isl (getCountryCode (httpGet w k) (toFloatCoord (LatitudeE7 (StartLocation seg)))
             (toFloatCoord (LongitudeE7 (StartLocation seg)))) \<or>
      parseRFC3339 (StartTimestamp (Duration seg)) = None)"

text \<open>
  The segments that count for a bucket. The k-th processed segment, whose lookup is
  request k (both counted from 0), counts for a country and a date when the answer to
  its request decodes with that country code, which is not empty, and its start
  timestamp parses and begins with that date.
\<close>

definition matches :: "world \<Rightarrow> nat \<Rightarrow> ActivitySegment \<Rightarrow> string \<Rightarrow> string \<Rightarrow> bool" where
  "matches w k seg country date =
     (httpGet w k (requestURL (toFloatCoord (LatitudeE7 (StartLocation seg)))
                              (toFloatCoord (LongitudeE7 (StartLocation seg)))) = Decoded country \<and>
      country \<noteq> [] \<and>
      parseRFC3339 (StartTimestamp (Duration seg)) \<noteq> None \<and>
      take 10 (StartTimestamp (Duration seg)) = date)"

fun matching :: "world \<Rightarrow> nat \<Rightarrow> ActivitySegment list \<Rightarrow> string \<Rightarrow> string \<Rightarrow> ActivitySegment list" where
  "matching w k [] country date = []"
| "matching w k (seg # segs) country date =
     (if matches w k seg country date then seg # matching w (k + 1) segs country date
      else matching w (k + 1) segs country date)"

text \<open>The two steps of \<open>round64\<close> on a rational that is not 0.\<close>

definition quantum :: "rat \<Rightarrow> rat" where
  "quantum q = 2 powi (max (ilog2 \<bar>q\<bar>) (- 1022) - 52)"

definition rounded :: "rat \<Rightarrow> rat" where
  "rounded q = of_int (rne (q / quantum q)) * quantum q"


text \<open>The multiples of the smallest positive float64, \<open>2 powi (- 1074)\<close>.\<close>

definition ongrid :: "rat \<Rightarrow> bool" where
  "ongrid q = (\<exists>k::int. q = of_int k * 2 powi (- 1074))"

section \<open>Example inputs\<close>

text \<open>
  The end-to-end scenario: a trip of 5000 m that starts in the United States and one of
  3000 m that starts in France, with an object that carries no segment between them.
\<close>

definition tripUS :: ActivitySegment where
  "tripUS = \<lparr>StartLocation = \<lparr>LatitudeE7 = 400000000, LongitudeE7 = - 740000000\<rparr>,
             EndLocation = \<lparr>LatitudeE7 = 407000000, LongitudeE7 = - 740000000\<rparr>,
             Distance = 5000,
             Duration = \<lparr>StartTimestamp = ''2024-03-01T10:00:00-05:00''\<rparr>\<rparr>"

definition tripFR :: ActivitySegment where
  "tripFR = \<lparr>StartLocation = \<lparr>LatitudeE7 = 488566000, LongitudeE7 = 23522000\<rparr>,
             EndLocation = \<lparr>LatitudeE7 = 488566000, LongitudeE7 = 23522000\<rparr>,
             Distance = 3000,
             Duration = \<lparr>StartTimestamp = ''2024-03-01T09:00:00+01:00''\<rparr>\<rparr>"

definition exampleObjects :: "TimelineObject list" where
  "exampleObjects =
     [\<lparr>ActivitySegment = Some tripUS\<rparr>, \<lparr>ActivitySegment = None\<rparr>,
      \<lparr>ActivitySegment = Some tripFR\<rparr>]"

text \<open>A world that answers the first request with \<open>us\<close> and every later one with \<open>fr\<close>.\<close>

definition exampleWorld :: world where
  "exampleWorld =
     \<lparr>readFile = Inr ''{}'',
      jsonUnmarshal = (\<lambda>data. Inr \<lparr>TimelineObjects = exampleObjects\<rparr>),
      httpGet = (\<lambda>k url. if k = 0 then Decoded ''us'' else Decoded ''fr''),
      today = ''2024-03-02'',
      osCreate = (\<lambda>name. None),
      writeString = (\<lambda>k s. None),
      rangeCountries = [''us'', ''fr''],
      rangeDates = (\<lambda>country. [''2024-03-01''])\<rparr>"

text \<open>A world in which every request is answered with \<open>us\<close>.\<close>

definition usWorld :: world where
  "usWorld = exampleWorld\<lparr>httpGet := (\<lambda>k url. Decoded ''us'')\<rparr>"

text \<open>
  Trips from the same place on the same day: 9007199254740992000 m, which is 2^53 km,
  1000 m, and a distance of -1000 m.
\<close>

definition tripHuge :: ActivitySegment where
  "tripHuge = tripUS\<lparr>Distance := 9007199254740992000\<rparr>"

definition tripKm :: ActivitySegment where
  "tripKm = tripUS\<lparr>Distance := 1000\<rparr>"

definition tripBack :: ActivitySegment where
  "tripBack = tripUS\<lparr>Distance := - 1000\<rparr>"

definition hugeFirst :: "TimelineObject list" where
  "hugeFirst = [\<lparr>ActivitySegment = Some tripHuge\<rparr>, \<lparr>ActivitySegment = Some tripKm\<rparr>,
                \<lparr>ActivitySegment = Some tripKm\<rparr>]"

definition hugeLast :: "TimelineObject list" where
  "hugeLast = [\<lparr>ActivitySegment = Some tripKm\<rparr>, \<lparr>ActivitySegment = Some tripKm\<rparr>,
               \<lparr>ActivitySegment = Some tripHuge\<rparr>]"


text \<open>A world whose disk is full: every write fails. A world in which the report file cannot be created.\<close>

definition fullDiskWorld :: world where
  "fullDiskWorld = exampleWorld\<lparr>writeString := (\<lambda>k s. Some (Error ''no space left on device''))\<rparr>"

definition lockedWorld :: world where
  "lockedWorld = exampleWorld\<lparr>osCreate := (\<lambda>name. Some (Error ''permission denied''))\<rparr>"

text \<open>An order of the dates for the example, where every country has the one date.\<close>

definition oneDate :: "string \<Rightarrow> string list" where
  "oneDate country = [''2024-03-01'']"

text \<open>Two trips that start in the same country on the same day.\<close>

definition twoTrips :: "TimelineObject list" where
  "twoTrips = [\<lparr>ActivitySegment = Some tripUS\<rparr>, \<lparr>ActivitySegment = Some tripKm\<rparr>]"

text \<open>
  A trip that starts half an hour after midnight, one hour east of Greenwich: in UTC it
  starts on the day before.
\<close>

definition tripLate :: ActivitySegment where
  "tripLate = tripFR\<lparr>Duration := \<lparr>StartTimestamp = ''2024-03-01T00:30:00+01:00''\<rparr>\<rparr>"


text \<open>
  A world in which the second request times out and the others are answered with
  \<open>us\<close>, and a trip whose timestamp is no timestamp.
\<close>

definition flakyWorld :: world where
  "flakyWorld = exampleWorld\<lparr>httpGet :=
     (\<lambda>k url. if k = 1 then GetFailed (Error ''timeout'') else Decoded ''us'')\<rparr>"

definition tripBadTime :: ActivitySegment where
  "tripBadTime = tripUS\<lparr>Duration := \<lparr>StartTimestamp = ''yesterday''\<rparr>\<rparr>"

text \<open>Three objects each: the second is skipped, for its lookup or for its timestamp.\<close>

definition lookupFails :: "TimelineObject list" where
  "lookupFails = [\<lparr>ActivitySegment = Some tripUS\<rparr>, \<lparr>ActivitySegment = Some tripUS\<rparr>,
                  \<lparr>ActivitySegment = Some tripKm\<rparr>]"

definition timestampFails :: "TimelineObject list" where
  "timestampFails = [\<lparr>ActivitySegment = Some tripUS\<rparr>, \<lparr>ActivitySegment = Some tripBadTime\<rparr>,
                     \<lparr>ActivitySegment = Some tripKm\<rparr>]"

section \<open>Rounding: bounds and exactness\<close>

lemma ilog2_ge1:
  assumes "1 \<le> q"
  shows "2 powi (ilog2 q) \<le> q" and "q < 2 powi (ilog2 q + 1)"
proof -
  define n where "n = \<lfloor>q\<rfloor>"
  have n1: "1 \<le> n" using assms by (simp add: n_def le_floor_iff)
  then have n0: "0 < n" by simp
  have b1: "1 \<le> bitlen n" using n0 by (simp add: bitlen_alt_def)
  from bitlen_bounds[OF n0] have lo: "2 ^ nat (bitlen n - 1) \<le> n" and hi: "n < 2 ^ nat (bitlen n)"
    by auto
  have e: "ilog2 q = bitlen n - 1" using assms by (simp add: ilog2_def n_def)
  have "(2::rat) powi (bitlen n - 1) = 2 ^ nat (bitlen n - 1)"
    using b1 by (simp add: power_int_def)
  also have "\<dots> = of_int (2 ^ nat (bitlen n - 1))" by simp
  also have "\<dots> \<le> of_int n" using lo by (simp only: of_int_le_iff)
  also have "\<dots> \<le> q" by (simp add: n_def)
  finally show "2 powi (ilog2 q) \<le> q" by (simp add: e)
  have "n + 1 \<le> 2 ^ nat (bitlen n)" using hi by simp
  then have "(of_int (n + 1) :: rat) \<le> of_int (2 ^ nat (bitlen n))" by (simp only: of_int_le_iff)
  moreover have "q < of_int (n + 1)" unfolding n_def by linarith
  ultimately have "q < of_int (2 ^ nat (bitlen n))" by linarith
  also have "\<dots> = 2 powi (bitlen n)" using b1 by (simp add: power_int_def)
  finally show "q < 2 powi (ilog2 q + 1)" by (simp add: e)
qed

lemma ilog2_lt1:
  assumes "0 < q" "q < 1"
  shows "2 powi (ilog2 q) \<le> q" and "q < 2 powi (ilog2 q + 1)"
proof -
  define m where "m = \<lceil>1 / q\<rceil>"
  define k where "k = bitlen (m - 1)"
  have "1 < 1 / q" using assms by simp
  then have m2: "2 \<le> m" unfolding m_def by linarith
  then have m0: "0 < m - 1" by simp
  have k1: "1 \<le> k" using m0 by (simp add: bitlen_alt_def k_def)
  from bitlen_bounds[OF m0] have lo: "2 ^ nat (k - 1) \<le> m - 1" and hi: "m - 1 < 2 ^ nat k"
    by (auto simp: k_def)
  have e: "ilog2 q = - k" using assms by (simp add: ilog2_def m_def k_def)
  have p: "(2::rat) powi (- k) = 1 / 2 ^ nat k"
    using k1 by (simp add: power_int_def field_simps)
  have "m \<le> 2 ^ nat k" using hi by simp
  then have "(of_int m :: rat) \<le> of_int (2 ^ nat k)" by (simp only: of_int_le_iff)
  moreover have "1 / q \<le> of_int m" by (simp add: m_def)
  ultimately have "1 / q \<le> of_int (2 ^ nat k)" by linarith
  then have "1 / q \<le> 2 ^ nat k" by simp
  then have "1 / 2 ^ nat k \<le> q" using assms(1) by (simp add: field_simps)
  then show "2 powi (ilog2 q) \<le> q" by (simp add: e p)
  have "(of_int (2 ^ nat (k - 1)) :: rat) \<le> of_int (m - 1)" using lo by (simp only: of_int_le_iff)
  moreover have "of_int (m - 1) < 1 / q" unfolding m_def by linarith
  ultimately have "of_int (2 ^ nat (k - 1)) < 1 / q" by linarith
  then have "2 ^ nat (k - 1) < 1 / q" by simp
  then have "q < 1 / 2 ^ nat (k - 1)" using assms(1) by (simp add: field_simps)
  moreover have "(2::rat) powi (- k + 1) = 1 / 2 ^ nat (k - 1)"
    using k1 by (simp add: power_int_def field_simps nat_diff_distrib)
  ultimately show "q < 2 powi (ilog2 q + 1)" by (simp add: e)
qed

lemma ilog2_bounds:
  assumes "0 < q"
  shows "2 powi (ilog2 q) \<le> q" and "q < 2 powi (ilog2 q + 1)"
  using ilog2_ge1[of q] ilog2_lt1[of q] assms by (cases "1 \<le> q"; simp)+

lemma rne_error: "\<bar>of_int (rne x) - x\<bar> \<le> 1 / 2"
proof -
  have "of_int \<lfloor>x\<rfloor> \<le> x" "x < of_int \<lfloor>x\<rfloor> + 1" by linarith+
  then show ?thesis by (auto simp: rne_def Let_def abs_le_iff)
qed

lemma rne_of_int [simp]: "rne (of_int n) = n"
  by (simp add: rne_def)

lemma pow2_pos [simp]: "0 < (2::rat) powi e"
  by (simp add: zero_less_power_int)

lemma ilog2_ge:
  assumes "0 < q" "2 powi k \<le> q"
  shows "k \<le> ilog2 q"
proof (rule ccontr)
  assume "\<not> k \<le> ilog2 q"
  then have "ilog2 q + 1 \<le> k" by simp
  then have "(2::rat) powi (ilog2 q + 1) \<le> 2 powi k"
    by (intro power_int_increasing) auto
  with ilog2_bounds(2)[OF assms(1)] assms(2) show False by linarith
qed

lemma ilog2_le:
  assumes "0 < q" "q < 2 powi k"
  shows "ilog2 q < k"
proof (rule ccontr)
  assume "\<not> ilog2 q < k"
  then have "k \<le> ilog2 q" by simp
  then have "(2::rat) powi k \<le> 2 powi (ilog2 q)"
    by (intro power_int_increasing) auto
  with ilog2_bounds(1)[OF assms(1)] assms(2) show False by linarith
qed

lemma round64_alt:
  "round64 q = (if q = 0 then Fin 0
     else if 2 ^ 1024 \<le> \<bar>rounded q\<bar> then (if 0 < q then PInf else NInf)
     else if rounded q = 0 then (if 0 < q then Fin 0 else NegZero)
     else Fin (rounded q))"
  by (simp add: round64_def rounded_def quantum_def Let_def)

lemma quantum_pos [simp]: "0 < quantum q"
  by (simp add: quantum_def)

lemma quantum_nonneg [simp]: "0 \<le> quantum q"
  by (simp add: less_imp_le)

lemma quantum_nonzero [simp]: "quantum q \<noteq> 0"
  using quantum_pos[of q] by linarith

lemma rounded_error: "\<bar>rounded q - q\<bar> \<le> quantum q / 2"
proof -
  have "\<bar>of_int (rne (q / quantum q)) - q / quantum q\<bar> * quantum q \<le> 1 / 2 * quantum q"
    by (intro mult_right_mono rne_error) simp
  moreover have "\<bar>of_int (rne (q / quantum q)) - q / quantum q\<bar> * quantum q = \<bar>rounded q - q\<bar>"
  proof -
    have "\<bar>of_int (rne (q / quantum q)) - q / quantum q\<bar> * quantum q
          = \<bar>(of_int (rne (q / quantum q)) - q / quantum q) * quantum q\<bar>"
      by (simp add: abs_mult)
    also have "(of_int (rne (q / quantum q)) - q / quantum q) * quantum q = rounded q - q"
      by (simp add: rounded_def field_simps)
    finally show ?thesis .
  qed
  ultimately show ?thesis by simp
qed

lemma quantum_normal:
  assumes "2 powi (- 1022) \<le> \<bar>q\<bar>"
  shows "quantum q \<le> \<bar>q\<bar> / 2 ^ 52"
proof -
  have p: "0 < \<bar>q\<bar>" using assms pow2_pos[of "- 1022"] by linarith
  have "- 1022 \<le> ilog2 \<bar>q\<bar>" using ilog2_ge[OF p assms] .
  then have "quantum q = 2 powi (ilog2 \<bar>q\<bar> - 52)" by (simp add: quantum_def max_def)
  also have "\<dots> = 2 powi (ilog2 \<bar>q\<bar>) / 2 ^ 52"
    by (simp add: power_int_diff)
  also have "\<dots> \<le> \<bar>q\<bar> / 2 ^ 52"
    using ilog2_bounds(1)[OF p] by (simp add: divide_right_mono)
  finally show ?thesis .
qed

lemma rounded_normal:
  assumes "2 powi (- 1022) \<le> \<bar>q\<bar>"
  shows "\<bar>rounded q - q\<bar> \<le> \<bar>q\<bar> / 2 ^ 53"
proof -
  have "\<bar>rounded q - q\<bar> \<le> quantum q / 2" by (rule rounded_error)
  also have "\<dots> \<le> (\<bar>q\<bar> / 2 ^ 52) / 2" using quantum_normal[OF assms] by simp
  also have "\<dots> = \<bar>q\<bar> / 2 ^ 53" by simp
  finally show ?thesis .
qed

lemma round64_normal:
  assumes lo: "2 powi (- 1022) \<le> \<bar>q\<bar>" and hi: "\<bar>q\<bar> \<le> 2 ^ 1023"
  shows "\<exists>r. round64 q = Fin r \<and> \<bar>r - q\<bar> \<le> \<bar>q\<bar> / 2 ^ 53 \<and> (0 < q \<longleftrightarrow> 0 < r) \<and> r \<noteq> 0"
proof -
  have p: "0 < \<bar>q\<bar>" using lo pow2_pos[of "- 1022"] by linarith
  then have q0: "q \<noteq> 0" by simp
  have e: "\<bar>rounded q - q\<bar> \<le> \<bar>q\<bar> / 2 ^ 53" by (rule rounded_normal[OF lo])
  have small: "\<bar>q\<bar> / 2 ^ 53 < \<bar>q\<bar>" using p by (simp add: field_simps)
  have nz: "rounded q \<noteq> 0" using e small by auto
  have sg: "0 < q \<longleftrightarrow> 0 < rounded q" using e small by (auto simp: abs_if split: if_splits)
  have "\<bar>rounded q\<bar> \<le> \<bar>q\<bar> + \<bar>q\<bar> / 2 ^ 53" using e by linarith
  also have "\<dots> \<le> 2 ^ 1023 + 2 ^ 1023 / 2 ^ 53" using hi by (intro add_mono divide_right_mono) auto
  also have "\<dots> < 2 ^ 1024" by simp
  finally have nov: "\<not> 2 ^ 1024 \<le> \<bar>rounded q\<bar>" by simp
  show ?thesis
    using q0 nz nov e sg by (simp add: round64_alt)
qed

lemma rounded_exact:
  assumes "q / quantum q = of_int k"
  shows "rounded q = q"
proof -
  have "rounded q = of_int k * quantum q" by (simp add: rounded_def assms)
  also have "\<dots> = q / quantum q * quantum q" by (simp add: assms)
  also have "\<dots> = q" by simp
  finally show ?thesis .
qed

lemma sint64_bounds: "\<bar>sint (x :: 64 word)\<bar> \<le> 2 ^ 63"
  using sint_ge[of x] sint_lt[of x] by simp

lemma rounded_small_int:
  assumes "n \<noteq> 0" "\<bar>n\<bar> \<le> 2 ^ 53"
  shows "rounded (of_int n) = of_int n"
proof (cases "\<bar>n\<bar> = 2 ^ 53")
  case True
  have a: "\<bar>rat_of_int n\<bar> = 2 ^ 53" using True by (metis of_int_abs of_int_numeral of_int_power)
  have "(2::rat) powi 53 \<le> \<bar>of_int n\<bar>" "\<bar>rat_of_int n\<bar> < 2 powi 54"
    unfolding a by simp_all
  moreover have "0 < \<bar>rat_of_int n\<bar>" unfolding a by simp
  ultimately have "ilog2 \<bar>of_int n\<bar> = 53"
    using ilog2_ge[of "\<bar>of_int n\<bar>" 53] ilog2_le[of "\<bar>of_int n\<bar>" 54] by linarith
  then have qu: "quantum (of_int n) = 2" by (simp add: quantum_def)
  have "even n" using True by (metis abs_numeral abs_power2 dvd_abs_iff even_numeral even_power zero_less_numeral power_abs)
  then obtain k where k: "n = 2 * k" by (auto elim: evenE)
  have "rat_of_int n / quantum (of_int n) = of_int n / 2" by (simp only: qu)
  also have "\<dots> = of_int k" by (simp add: k)
  finally have "rat_of_int n / quantum (of_int n) = of_int k" .
  then show ?thesis by (rule rounded_exact)
next
  case False
  with assms have lt: "\<bar>n\<bar> < 2 ^ 53" by simp
  have "1 \<le> \<bar>n\<bar>" using assms(1) by simp
  then have "rat_of_int 1 \<le> of_int \<bar>n\<bar>" by (simp only: of_int_le_iff)
  then have a1: "1 \<le> \<bar>rat_of_int n\<bar>" by simp
  have "rat_of_int \<bar>n\<bar> < of_int (2 ^ 53)" using lt by (simp only: of_int_less_iff)
  then have a2: "\<bar>rat_of_int n\<bar> < 2 powi 53" by simp
  have p: "0 < \<bar>rat_of_int n\<bar>" using a1 by linarith
  define e where "e = ilog2 \<bar>rat_of_int n\<bar>"
  have e0: "0 \<le> e" using ilog2_ge[OF p, of 0] a1 by (simp add: e_def)
  have e52: "e \<le> 52" using ilog2_le[OF p a2] by (simp add: e_def)
  have qu: "quantum (of_int n) = 2 powi (e - 52)" using e0 by (simp add: quantum_def e_def max_def)
  have "(2::rat) powi (e - 52) = 1 / 2 ^ nat (52 - e)"
    using e52 by (simp add: power_int_def field_simps)
  then have "rat_of_int n / quantum (of_int n) = of_int (n * 2 ^ nat (52 - e))"
    by (simp add: qu)
  then show ?thesis by (rule rounded_exact)
qed

lemma round64_int_exact:
  assumes "\<bar>n\<bar> \<le> 2 ^ 53"
  shows "round64 (of_int n) = Fin (of_int n)"
proof (cases "n = 0")
  case True
  then show ?thesis by (simp add: round64_def)
next
  case False
  have r: "rounded (of_int n) = of_int n"
    by (rule rounded_small_int[OF False assms])
  have "rat_of_int \<bar>n\<bar> \<le> of_int (2 ^ 53)"
    using assms by (simp only: of_int_le_iff)
  then have "\<bar>rat_of_int n\<bar> \<le> 2 ^ 53" by simp
  also have "\<dots> < (2::rat) ^ 1024" by simp
  finally have "\<not> 2 ^ 1024 \<le> \<bar>rat_of_int n\<bar>" by simp
  then show ?thesis using False unfolding round64_alt r by simp
qed

lemma round64_int_approx:
  assumes "n \<noteq> 0" "\<bar>n\<bar> \<le> 2 ^ 63"
  shows "\<exists>r. round64 (of_int n) = Fin r \<and> \<bar>r - of_int n\<bar> \<le> \<bar>of_int n\<bar> / 2 ^ 53 \<and>
             (0 < n \<longleftrightarrow> 0 < r) \<and> r \<noteq> 0"
proof -
  let ?q = "rat_of_int n"
  have "1 \<le> \<bar>n\<bar>" using assms by simp
  then have "rat_of_int 1 \<le> of_int \<bar>n\<bar>" by (simp only: of_int_le_iff)
  then have a1: "1 \<le> \<bar>?q\<bar>" by simp
  have "(2::rat) powi (- 1022) \<le> 1" by (simp add: power_int_def field_simps)
  with a1 have lo: "2 powi (- 1022) \<le> \<bar>?q\<bar>" by linarith
  have "rat_of_int \<bar>n\<bar> \<le> of_int (2 ^ 63)" using assms(2) by (simp only: of_int_le_iff)
  then have "\<bar>?q\<bar> \<le> 2 ^ 63" by simp
  also have "\<dots> \<le> (2::rat) ^ 1023" by simp
  finally have hi: "\<bar>?q\<bar> \<le> 2 ^ 1023" .
  from round64_normal[OF lo hi] show ?thesis
    by simp
qed

lemma fdiv_Fin_Fin:
  assumes "a \<noteq> 0" "c \<noteq> 0"
  shows "fdiv (Fin a) (Fin c) = round64 (a / c)"
  using assms by (simp add: fdiv_def is_nan_def is_inf_def valof_def)

lemma fdiv_zero_pos:
  assumes "0 < c"
  shows "fdiv (Fin 0) (Fin c) = Fin 0"
  using assms by (simp add: fdiv_def is_nan_def is_inf_def valof_def signbit_def signed_zero_def)

lemma div_int_const:
  fixes c :: rat
  assumes c: "1 \<le> c" "c \<le> 10 ^ 8" and n: "n \<noteq> 0" "\<bar>n\<bar> \<le> 2 ^ 63"
  shows "\<exists>r. fdiv (round64 (of_int n)) (Fin c) = Fin r \<and>
             \<bar>r - of_int n / c\<bar> \<le> \<bar>of_int n / c\<bar> * (2 + 1 / 2 ^ 53) / 2 ^ 53 \<and>
             (0 < n \<longleftrightarrow> 0 < r) \<and> r \<noteq> 0"
proof -
  let ?q = "rat_of_int n"
  from round64_int_approx[OF n] obtain r0 where
    r0: "round64 ?q = Fin r0" and e0: "\<bar>r0 - ?q\<bar> \<le> \<bar>?q\<bar> / 2 ^ 53"
    and s0: "0 < n \<longleftrightarrow> 0 < r0" and z0: "r0 \<noteq> 0"
    by blast
  have cpos: "0 < c" using c by linarith
  have "1 \<le> \<bar>n\<bar>" using n by simp
  then have "rat_of_int 1 \<le> of_int \<bar>n\<bar>" by (simp only: of_int_le_iff)
  then have q1: "1 \<le> \<bar>?q\<bar>" by simp
  have "rat_of_int \<bar>n\<bar> \<le> of_int (2 ^ 63)" using n(2) by (simp only: of_int_le_iff)
  then have q63: "\<bar>?q\<bar> \<le> 2 ^ 63" by simp
  have "\<bar>?q\<bar> - \<bar>?q\<bar> / 2 ^ 53 \<le> \<bar>r0\<bar>" using e0 by linarith
  moreover have "\<bar>?q\<bar> / 2 ^ 53 \<le> \<bar>?q\<bar> / 2" by (intro divide_left_mono) auto
  ultimately have r0lo: "1 / 2 \<le> \<bar>r0\<bar>" using q1 by linarith
  have r0hi: "\<bar>r0\<bar> \<le> \<bar>?q\<bar> + \<bar>?q\<bar> / 2 ^ 53" using e0 by linarith
  then have r0hi': "\<bar>r0\<bar> \<le> 2 ^ 64" using q63 by simp
  have d: "fdiv (round64 ?q) (Fin c) = round64 (r0 / c)"
    unfolding r0 using z0 cpos by (intro fdiv_Fin_Fin) auto
  have absd: "\<bar>r0 / c\<bar> = \<bar>r0\<bar> / c" using cpos by (simp add: abs_divide)
  have "(2::rat) powi (- 1022) \<le> (1 / 2) / 10 ^ 8" by (simp add: power_int_def field_simps)
  also have "\<dots> \<le> (1 / 2) / c" using c cpos by (intro divide_left_mono) auto
  also have "\<dots> \<le> \<bar>r0\<bar> / c" using r0lo cpos by (intro divide_right_mono) auto
  finally have lo: "2 powi (- 1022) \<le> \<bar>r0 / c\<bar>" by (simp only: absd)
  have "\<bar>r0\<bar> / c \<le> \<bar>r0\<bar> / 1" using c by (intro divide_left_mono) auto
  also have "\<dots> \<le> 2 ^ 64" using r0hi' by simp
  also have "\<dots> \<le> (2::rat) ^ 1023" by simp
  finally have hi: "\<bar>r0 / c\<bar> \<le> 2 ^ 1023" by (simp only: absd)
  from round64_normal[OF lo hi] obtain r where
    r: "round64 (r0 / c) = Fin r" and e: "\<bar>r - r0 / c\<bar> \<le> \<bar>r0 / c\<bar> / 2 ^ 53"
    and s: "0 < r0 / c \<longleftrightarrow> 0 < r" and z: "r \<noteq> 0"
    by blast
  have sg: "0 < n \<longleftrightarrow> 0 < r" using s s0 cpos by (simp add: zero_less_divide_iff)
  have "\<bar>r - ?q / c\<bar> \<le> \<bar>r - r0 / c\<bar> + \<bar>r0 / c - ?q / c\<bar>" by linarith
  also have "\<bar>r0 / c - ?q / c\<bar> = \<bar>r0 - ?q\<bar> / c"
    using cpos by (simp add: abs_divide flip: diff_divide_distrib)
  finally have t: "\<bar>r - ?q / c\<bar> \<le> \<bar>r - r0 / c\<bar> + \<bar>r0 - ?q\<bar> / c" .
  have e': "\<bar>r - r0 / c\<bar> \<le> \<bar>r0\<bar> / c / 2 ^ 53" using e by (simp only: absd)
  have "\<bar>r - ?q / c\<bar> \<le> \<bar>r0\<bar> / c / 2 ^ 53 + \<bar>r0 - ?q\<bar> / c"
    using t e' by (rule order_trans[OF _ add_right_mono])
  also have "\<dots> \<le> (\<bar>?q\<bar> + \<bar>?q\<bar> / 2 ^ 53) / c / 2 ^ 53 + (\<bar>?q\<bar> / 2 ^ 53) / c"
    using r0hi e0 cpos by (intro add_mono divide_right_mono) auto
  also have "\<dots> = \<bar>?q / c\<bar> * (2 + 1 / 2 ^ 53) / 2 ^ 53"
    using cpos by (simp add: abs_divide field_simps)
  finally have err: "\<bar>r - ?q / c\<bar> \<le> \<bar>?q / c\<bar> * (2 + 1 / 2 ^ 53) / 2 ^ 53" .
  show ?thesis using d r err sg z by simp
qed

lemma div_int_const_exact:
  fixes c :: rat
  assumes c: "0 < c" and n: "\<bar>n\<bar> \<le> 2 ^ 53"
  shows "fdiv (round64 (of_int n)) (Fin c) = round64 (of_int n / c)"
proof (cases "n = 0")
  case True
  then show ?thesis using c by (simp add: round64_def fdiv_zero_pos)
next
  case False
  then show ?thesis
    unfolding round64_int_exact[OF n] using c by (intro fdiv_Fin_Fin) auto
qed

lemma toFloatCoord_zero: "sint x = 0 \<Longrightarrow> toFloatCoord x = Fin 0"
  unfolding toFloatCoord_def float64_of_int64_def by (simp add: round64_def fdiv_zero_pos)

lemma sint64_abs: "\<bar>sint (x :: 64 word)\<bar> \<le> 2 ^ 63"
  using sint_ge[of x] sint_lt[of x] by simp


lemma ongrid_0 [simp]: "ongrid 0"
  unfolding ongrid_def by (rule exI[of _ 0]) simp

lemma ongrid_add: "ongrid a \<Longrightarrow> ongrid b \<Longrightarrow> ongrid (a + b)"
  unfolding ongrid_def
proof (elim exE)
  fix k l :: int
  assume "a = of_int k * 2 powi (- 1074)" "b = of_int l * 2 powi (- 1074)"
  then have "a + b = of_int (k + l) * 2 powi (- 1074)" by (simp add: algebra_simps)
  then show "\<exists>m::int. a + b = of_int m * 2 powi (- 1074)" by blast
qed

lemma quantum_grid: "\<exists>j::nat. quantum q = 2 ^ j * 2 powi (- 1074)"
proof -
  define e where "e = max (ilog2 \<bar>q\<bar>) (- 1022)"
  have e: "- 1022 \<le> e" by (simp add: e_def)
  have "quantum q = 2 powi (e - 52)" by (simp add: quantum_def e_def)
  also have "e - 52 = int (nat (e + 1022)) + (- 1074)" using e by simp
  also have "(2::rat) powi (int (nat (e + 1022)) + (- 1074)) = 2 powi int (nat (e + 1022)) * 2 powi (- 1074)"
    by (rule power_int_add) simp
  also have "(2::rat) powi int (nat (e + 1022)) = 2 ^ nat (e + 1022)" by (rule power_int_of_nat)
  finally show ?thesis by blast
qed

lemma ongrid_rounded: "ongrid (rounded q)"
proof -
  obtain j :: nat where j: "quantum q = 2 ^ j * 2 powi (- 1074)" using quantum_grid by blast
  have "rounded q = of_int (rne (q / quantum q) * 2 ^ j) * 2 powi (- 1074)"
    by (simp add: rounded_def j)
  then show ?thesis unfolding ongrid_def by blast
qed

lemma rounded_subnormal:
  assumes "ongrid q" "q \<noteq> 0" "\<bar>q\<bar> < 2 powi (- 1022)"
  shows "rounded q = q"
proof -
  have p: "0 < \<bar>q\<bar>" using assms(2) by simp
  have "ilog2 \<bar>q\<bar> < - 1022" using ilog2_le[OF p assms(3)] .
  then have qu: "quantum q = 2 powi (- 1074)" by (simp add: quantum_def max_def)
  obtain k :: int where k: "q = of_int k * 2 powi (- 1074)" using assms(1) unfolding ongrid_def by blast
  have "q / quantum q = of_int k" unfolding qu by (subst k) simp
  then show ?thesis by (rule rounded_exact)
qed

lemma rounded_grid_error:
  assumes "ongrid q"
  shows "\<bar>rounded q - q\<bar> \<le> \<bar>q\<bar> / 2 ^ 53"
proof (cases "2 powi (- 1022) \<le> \<bar>q\<bar>")
  case True
  then show ?thesis by (rule rounded_normal)
next
  case False
  show ?thesis
  proof (cases "q = 0")
    case True
    then show ?thesis by (simp add: rounded_def rne_def)
  next
    case nz: False
    have "rounded q = q" using assms nz False by (intro rounded_subnormal) auto
    then show ?thesis by simp
  qed
qed

lemma rounded_grid_nonzero:
  assumes "ongrid q" "q \<noteq> 0"
  shows "rounded q \<noteq> 0"
proof -
  have e: "\<bar>rounded q - q\<bar> \<le> \<bar>q\<bar> / 2 ^ 53" by (rule rounded_grid_error[OF assms(1)])
  have "\<bar>q\<bar> / 2 ^ 53 < \<bar>q\<bar>" using assms(2) by (simp add: field_simps)
  with e show ?thesis by auto
qed

lemma round64_grid:
  assumes g: "ongrid q" and hi: "\<bar>q\<bar> \<le> 2 ^ 1023"
  shows "\<exists>r. round64 q = Fin r \<and> ongrid r \<and> \<bar>r - q\<bar> \<le> \<bar>q\<bar> / 2 ^ 53"
proof (cases "q = 0")
  case True
  then show ?thesis by (simp add: round64_def)
next
  case False
  have e: "\<bar>rounded q - q\<bar> \<le> \<bar>q\<bar> / 2 ^ 53" by (rule rounded_grid_error[OF g])
  have nz: "rounded q \<noteq> 0" by (rule rounded_grid_nonzero[OF g False])
  have "\<bar>rounded q\<bar> \<le> \<bar>q\<bar> + \<bar>q\<bar> / 2 ^ 53" using e by linarith
  also have "\<dots> \<le> 2 ^ 1023 + 2 ^ 1023 / 2 ^ 53" using hi by (intro add_mono divide_right_mono) auto
  also have "\<dots> < 2 ^ 1024" by simp
  finally have nov: "\<not> 2 ^ 1024 \<le> \<bar>rounded q\<bar>" by simp
  show ?thesis using False nz nov e ongrid_rounded[of q] by (simp add: round64_alt)
qed

lemma round64_Fin_grid: "round64 q = Fin r \<Longrightarrow> ongrid r"
  using ongrid_rounded[of q] by (auto simp: round64_alt split: if_splits)

lemma pow_bound:
  fixes u :: rat
  assumes "0 \<le> u" "2 * of_nat n * u \<le> 1"
  shows "(1 + u) ^ n \<le> 1 + 2 * of_nat n * u"
  using assms(2)
proof (induction n)
  case 0
  show ?case by simp
next
  case (Suc n)
  have le: "2 * of_nat n * u \<le> 2 * of_nat (Suc n) * u"
    using assms(1) by (simp add: algebra_simps)
  with Suc.prems have h: "2 * of_nat n * u \<le> 1" by linarith
  have "(1 + u) ^ Suc n = (1 + u) ^ n * (1 + u)" by simp
  also have "\<dots> \<le> (1 + 2 * of_nat n * u) * (1 + u)"
    using Suc.IH[OF h] assms(1) by (intro mult_right_mono) auto
  also have "\<dots> = 1 + 2 * of_nat n * u + u + (2 * of_nat n * u) * u" by (simp add: algebra_simps)
  also have "\<dots> \<le> 1 + 2 * of_nat n * u + u + 1 * u"
    using h assms(1) by (intro add_left_mono mult_right_mono) auto
  also have "\<dots> = 1 + 2 * of_nat (Suc n) * u" by (simp add: algebra_simps)
  finally show ?case .
qed

lemma abs_sum_list_le: "\<bar>sum_list qs\<bar> \<le> (\<Sum>q\<leftarrow>qs. \<bar>q\<bar>)" for qs :: "rat list"
  by (induction qs) auto

lemma sum_list_abs_nonneg: "0 \<le> (\<Sum>q\<leftarrow>qs. \<bar>q\<bar>)" for qs :: "rat list"
  by (induction qs) auto

lemma float_sum_error:
  fixes qs :: "rat list"
  assumes "\<forall>q\<in>set qs. ongrid q"
    and "2 * of_nat (length qs) * (1 / 2 ^ 53 :: rat) \<le> 1"
    and "2 * (\<Sum>q\<leftarrow>qs. \<bar>q\<bar>) \<le> 2 ^ 1023"
  shows "\<exists>s. foldl fadd (Fin 0) (map Fin qs) = Fin s \<and> ongrid s \<and>
             \<bar>s - sum_list qs\<bar> \<le> ((1 + 1 / 2 ^ 53) ^ length qs - 1) * (\<Sum>q\<leftarrow>qs. \<bar>q\<bar>)"
  using assms
proof (induction qs rule: rev_induct)
  case Nil
  show ?case by simp
next
  case (snoc x qs)
  define u :: rat where "u = 1 / 2 ^ 53"
  define n where "n = length qs"
  define A where "A = (\<Sum>q\<leftarrow>qs. \<bar>q\<bar>)"
  define S where "S = sum_list qs"
  have u0: "0 \<le> u" "0 < u" by (simp_all add: u_def)
  have A0: "0 \<le> A" unfolding A_def by (rule sum_list_abs_nonneg)
  have gx: "ongrid x" and gqs: "\<forall>q\<in>set qs. ongrid q" using snoc.prems(1) by auto
  have n1: "2 * of_nat (Suc n) * u \<le> 1" using snoc.prems(2) by (simp add: u_def n_def)
  have "2 * of_nat n * u \<le> 2 * of_nat (Suc n) * u" using u0 by (simp add: algebra_simps)
  with n1 have n0: "2 * of_nat n * u \<le> 1" by linarith
  have A1: "2 * (A + \<bar>x\<bar>) \<le> 2 ^ 1023" using snoc.prems(3) by (simp add: A_def)
  have "2 * A \<le> 2 * (A + \<bar>x\<bar>)" by simp
  then have A2: "2 * A \<le> 2 ^ 1023" using A1 by (rule order_trans)
  from snoc.IH[OF gqs] n0 A2 obtain s where
    s: "foldl fadd (Fin 0) (map Fin qs) = Fin s" and gs: "ongrid s"
    and es: "\<bar>s - S\<bar> \<le> ((1 + u) ^ n - 1) * A"
    by (auto simp: u_def n_def A_def S_def)
  have U1: "1 \<le> (1 + u) ^ n" using u0 by (intro one_le_power) auto
  have "(1 + u) ^ n \<le> 1 + 2 * of_nat n * u" by (rule pow_bound[OF u0(1) n0])
  with n0 have U2: "(1 + u) ^ n \<le> 2" by linarith
  have SA: "\<bar>S\<bar> \<le> A" unfolding S_def A_def by (rule abs_sum_list_le)
  have "\<bar>s + x\<bar> \<le> \<bar>s - S\<bar> + \<bar>S\<bar> + \<bar>x\<bar>" by linarith
  also have "\<dots> \<le> ((1 + u) ^ n - 1) * A + A + \<bar>x\<bar>" using es SA by linarith
  also have "\<dots> = (1 + u) ^ n * A + \<bar>x\<bar>" by (simp add: algebra_simps)
  also have "\<dots> \<le> (1 + u) ^ n * A + (1 + u) ^ n * \<bar>x\<bar>"
    using U1 by (intro add_left_mono) (simp add: mult_le_cancel_right1)
  also have "\<dots> = (1 + u) ^ n * (A + \<bar>x\<bar>)" by (simp add: algebra_simps)
  finally have sx: "\<bar>s + x\<bar> \<le> (1 + u) ^ n * (A + \<bar>x\<bar>)" .
  have "(1 + u) ^ n * (A + \<bar>x\<bar>) \<le> 2 * (A + \<bar>x\<bar>)"
    using U2 A0 by (intro mult_right_mono) auto
  then have "\<bar>s + x\<bar> \<le> 2 * (A + \<bar>x\<bar>)" using sx by linarith
  then have hi: "\<bar>s + x\<bar> \<le> 2 ^ 1023" using A1 by (rule order_trans)
  from round64_grid[OF ongrid_add[OF gs gx] hi] obtain s' where
    s': "round64 (s + x) = Fin s'" and gs': "ongrid s'"
    and es': "\<bar>s' - (s + x)\<bar> \<le> \<bar>s + x\<bar> / 2 ^ 53"
    by blast
  have es'': "\<bar>s' - (s + x)\<bar> \<le> (1 + u) ^ n * (A + \<bar>x\<bar>) * u"
  proof -
    have "\<bar>s + x\<bar> / 2 ^ 53 = \<bar>s + x\<bar> * u" by (simp add: u_def)
    also have "\<dots> \<le> (1 + u) ^ n * (A + \<bar>x\<bar>) * u" using sx u0 by (intro mult_right_mono) auto
    finally show ?thesis using es' by linarith
  qed
  have "\<bar>s' - (S + x)\<bar> \<le> \<bar>s' - (s + x)\<bar> + \<bar>s - S\<bar>" by linarith
  also have "\<dots> \<le> (1 + u) ^ n * (A + \<bar>x\<bar>) * u + ((1 + u) ^ n - 1) * A"
    using es'' es by linarith
  also have "\<dots> \<le> (1 + u) ^ n * (A + \<bar>x\<bar>) * u + ((1 + u) ^ n - 1) * (A + \<bar>x\<bar>)"
    using U1 by (intro add_left_mono mult_left_mono) auto
  also have "\<dots> = ((1 + u) ^ Suc n - 1) * (A + \<bar>x\<bar>)" by (simp add: algebra_simps)
  finally have fin: "\<bar>s' - (S + x)\<bar> \<le> ((1 + u) ^ Suc n - 1) * (A + \<bar>x\<bar>)" .
  have "foldl fadd (Fin 0) (map Fin (qs @ [x])) = Fin s'" by (simp add: s s')
  then show ?case using gs' fin by (simp add: u_def n_def A_def S_def)
qed

lemma float_sum_reorder:
  fixes qs qs' :: "rat list"
  assumes m: "mset qs = mset qs'"
    and g: "\<forall>q\<in>set qs. ongrid q"
    and n: "length qs \<le> 2 ^ 52"
    and b: "\<forall>q\<in>set qs. \<bar>q\<bar> \<le> 2 ^ 55"
  shows "\<exists>s s'. foldl fadd (Fin 0) (map Fin qs) = Fin s \<and> foldl fadd (Fin 0) (map Fin qs') = Fin s' \<and>
                \<bar>s - s'\<bar> \<le> of_nat (length qs) * (\<Sum>q\<leftarrow>qs. \<bar>q\<bar>) / 2 ^ 51"
proof -
  define u :: rat where "u = 1 / 2 ^ 53"
  define A where "A = (\<Sum>q\<leftarrow>qs. \<bar>q\<bar>)"
  have u0: "0 \<le> u" by (simp add: u_def)
  have A0: "0 \<le> A" unfolding A_def by (rule sum_list_abs_nonneg)
  have len: "length qs' = length qs" using m by (metis size_mset)
  have set: "set qs' = set qs" using m by (metis set_mset_mset)
  have A': "(\<Sum>q\<leftarrow>qs'. \<bar>q\<bar>) = A"
    unfolding A_def using m by (metis mset_map sum_mset_sum_list)
  have S': "sum_list qs' = sum_list qs" using m by (metis sum_mset_sum_list)
  have "(of_nat (length qs) :: rat) \<le> of_nat (2 ^ 52)" using n by (simp only: of_nat_le_iff)
  then have nn: "(of_nat (length qs) :: rat) \<le> 2 ^ 52" by simp
  then have nu: "2 * of_nat (length qs) * u \<le> 1" by (simp add: u_def)
  have "A \<le> of_nat (length qs) * 2 ^ 55"
    unfolding A_def using b
  proof (induction qs)
    case Nil
    show ?case by simp
  next
    case (Cons q qs)
    then have "\<bar>q\<bar> \<le> 2 ^ 55" "(\<Sum>q\<leftarrow>qs. \<bar>q\<bar>) \<le> of_nat (length qs) * 2 ^ 55" by auto
    then show ?case by (simp add: algebra_simps)
  qed
  also have "\<dots> \<le> 2 ^ 52 * 2 ^ 55" using nn by (intro mult_right_mono) auto
  finally have "2 * A \<le> 2 * (2 ^ 52 * 2 ^ 55)" by simp
  also have "\<dots> \<le> (2::rat) ^ 1023" by simp
  finally have ov: "2 * A \<le> 2 ^ 1023" .
  from float_sum_error[OF g] nu ov obtain s where
    s: "foldl fadd (Fin 0) (map Fin qs) = Fin s"
    and es: "\<bar>s - sum_list qs\<bar> \<le> ((1 + u) ^ length qs - 1) * A"
    by (auto simp: u_def A_def)
  have g': "\<forall>q\<in>set qs'. ongrid q" using g set by simp
  from float_sum_error[OF g'] nu ov obtain s' where
    s': "foldl fadd (Fin 0) (map Fin qs') = Fin s'"
    and es': "\<bar>s' - sum_list qs\<bar> \<le> ((1 + u) ^ length qs - 1) * A"
    by (auto simp: u_def len A' S')
  have "(1 + u) ^ length qs - 1 \<le> 2 * of_nat (length qs) * u"
    using pow_bound[OF u0 nu] by simp
  then have "((1 + u) ^ length qs - 1) * A \<le> 2 * of_nat (length qs) * u * A"
    using A0 by (intro mult_right_mono) auto
  then have "\<bar>s - s'\<bar> \<le> 2 * (2 * of_nat (length qs) * u * A)" using es es' by linarith
  also have "\<dots> = of_nat (length qs) * A / 2 ^ 51" by (simp add: u_def)
  finally show ?thesis using s s' by (auto simp: A_def)
qed

lemma fdiv_int_round:
  fixes c :: rat
  assumes "0 < c" "\<bar>n\<bar> \<le> 2 ^ 63"
  shows "\<exists>q. fdiv (round64 (of_int n)) (Fin c) = round64 q"
proof (cases "n = 0")
  case True
  have "fdiv (round64 (of_int n)) (Fin c) = round64 0"
    using True assms(1) by (simp add: round64_def fdiv_zero_pos)
  then show ?thesis by blast
next
  case False
  from round64_int_approx[OF False assms(2)] obtain r0 where
    "round64 (rat_of_int n) = Fin r0" "r0 \<noteq> 0" by blast
  then have "fdiv (round64 (of_int n)) (Fin c) = round64 (r0 / c)"
    using assms(1) by (simp add: fdiv_Fin_Fin)
  then show ?thesis by blast
qed

section \<open>Dates: printing what was parsed\<close>

lemma digitChar_digitVal: "isDigit c \<Longrightarrow> digitChar (digitVal c) = c"
  by (simp add: isDigit_def digitChar_def digitVal_def)

lemma digitVal_less: "isDigit c \<Longrightarrow> digitVal c < 10"
  by (auto simp: isDigit_def digitVal_def)

lemma digitChar_0: "digitChar 0 = CHR ''0''"
  unfolding digitChar_def by code_simp

lemma showNat_digit: "n < 10 \<Longrightarrow> showNat n = [digitChar n]"
  by (simp add: showNat.simps)

lemma padZero_snoc:
  assumes "b < 10" "0 < w"
  shows "padZero (Suc w) (showNat (n * 10 + b)) = padZero w (showNat n) @ [digitChar b]"
proof (cases "n = 0")
  case True
  have "padZero w (showNat 0) = replicate w (CHR ''0'')"
    using assms(2)
    by (cases w) (simp_all add: padZero_def showNat_digit digitChar_0 replicate_append_same)
  then show ?thesis using True assms(1) by (simp add: padZero_def showNat_digit)
next
  case False
  then have "showNat (n * 10 + b) = showNat n @ [digitChar b]"
    using assms(1) by (subst showNat.simps) simp
  then show ?thesis by (simp add: padZero_def)
qed

lemma padZero_1: "n < 10 \<Longrightarrow> padZero (Suc 0) (showNat n) = [digitChar n]"
  by (simp add: padZero_def showNat_digit)

lemma show2:
  assumes "isDigit a" "isDigit b"
  shows "padZero 2 (showNat (digitVal a * 10 + digitVal b)) = [a, b]"
proof -
  have "padZero (Suc (Suc 0)) (showNat (digitVal a * 10 + digitVal b))
          = padZero (Suc 0) (showNat (digitVal a)) @ [digitChar (digitVal b)]"
    by (rule padZero_snoc) (simp_all add: digitVal_less assms)
  then show ?thesis using assms by (simp add: padZero_1 digitVal_less digitChar_digitVal numeral_2_eq_2)
qed

lemma show4:
  assumes "isDigit a" "isDigit b" "isDigit c" "isDigit d"
  shows "padZero 4 (showNat (foldl (\<lambda>n c. n * 10 + digitVal c) 0 [a, b, c, d])) = [a, b, c, d]"
proof -
  let ?a = "digitVal a" and ?b = "digitVal b" and ?c = "digitVal c" and ?d = "digitVal d"
  have "padZero (Suc 3) (showNat (((?a * 10 + ?b) * 10 + ?c) * 10 + ?d))
          = padZero 3 (showNat ((?a * 10 + ?b) * 10 + ?c)) @ [digitChar ?d]"
    by (rule padZero_snoc) (simp_all add: digitVal_less assms)
  also have "padZero 3 (showNat ((?a * 10 + ?b) * 10 + ?c)) = padZero (Suc 2) (showNat ((?a * 10 + ?b) * 10 + ?c))"
    by (simp add: numeral_3_eq_3)
  also have "\<dots> = padZero 2 (showNat (?a * 10 + ?b)) @ [digitChar ?c]"
    by (rule padZero_snoc) (simp_all add: digitVal_less assms)
  also have "padZero 2 (showNat (?a * 10 + ?b)) = [a, b]" by (rule show2[OF assms(1,2)])
  finally show ?thesis using assms by (simp add: digitChar_digitVal)
qed

lemma getnum_fixed:
  assumes "getnum True s = Some (n, r)"
  shows "\<exists>a b. s = a # b # r \<and> isDigit a \<and> isDigit b \<and> n = digitVal a * 10 + digitVal b"
  using assms by (auto simp: getnum_def split: list.splits if_splits)

lemma expect_Some: "expect c s = Some r \<Longrightarrow> s = c # r"
  by (auto simp: expect_def split: list.splits if_splits)

lemma getyear_Some:
  assumes "getyear s = Some (y, r)"
  shows "\<exists>a b c d. s = a # b # c # d # r \<and> isDigit a \<and> isDigit b \<and> isDigit c \<and> isDigit d \<and>
           y = foldl (\<lambda>n c. n * 10 + digitVal c) 0 [a, b, c, d]"
proof -
  from assms have l: "4 \<le> length s" and dg: "list_all isDigit (take 4 s)"
    and y: "y = foldl (\<lambda>n c. n * 10 + digitVal c) 0 (take 4 s)" and r: "r = drop 4 s"
    by (auto simp: getyear_def split: if_splits)
  from l obtain a b c d s' where s: "s = a # b # c # d # s'"
    by (cases s; cases "tl s"; cases "tl (tl s)"; cases "tl (tl (tl s))") auto
  show ?thesis using dg y r unfolding s by auto
qed

lemma parseDate_shape:
  assumes "parseDate s = Some (y, mo, d, r)"
  shows "take 10 s = padZero 4 (showNat y) @ ''-'' @ padZero 2 (showNat mo) @ ''-'' @ padZero 2 (showNat d)"
proof -
  from assms obtain s1 s2 s3 s4 where
    gy: "getyear s = Some (y, s1)" and e1: "expect (CHR ''-'') s1 = Some s2"
    and gm: "getnum True s2 = Some (mo, s3)" and e2: "expect (CHR ''-'') s3 = Some s4"
    and gd: "getnum True s4 = Some (d, r)"
    by (auto simp: parseDate_def split: Option.bind_splits if_splits prod.splits)
  from getyear_Some[OF gy] obtain a b c e where
    s: "s = a # b # c # e # s1" and dy: "isDigit a" "isDigit b" "isDigit c" "isDigit e"
    and y: "y = foldl (\<lambda>n c. n * 10 + digitVal c) 0 [a, b, c, e]" by blast
  from getnum_fixed[OF gm] obtain m1 m2 where
    s2: "s2 = m1 # m2 # s3" and dm: "isDigit m1" "isDigit m2" and mo: "mo = digitVal m1 * 10 + digitVal m2"
    by blast
  from getnum_fixed[OF gd] obtain d1 d2 where
    s4: "s4 = d1 # d2 # r" and dd: "isDigit d1" "isDigit d2" and d: "d = digitVal d1 * 10 + digitVal d2"
    by blast
  have "take 10 s = [a, b, c, e] @ ''-'' @ [m1, m2] @ ''-'' @ [d1, d2]"
    unfolding s expect_Some[OF e1] s2 expect_Some[OF e2] s4 by simp
  then show ?thesis
    unfolding y mo d show4[OF dy] show2[OF dm] show2[OF dd] .
qed

section \<open>The loop\<close>

lemma foldl_loopBody:
  "foldl (loopBody w) st objs = foldl (processSegment w) st (extractSegments objs)"
  by (induction objs arbitrary: st) (auto simp: extractSegments_def loopBody_def split: option.splits)

lemma requests_processSegment: "requests (processSegment w st seg) = requests st + 1"
  by (simp add: processSegment_def Let_def split: sum.splits option.splits)

lemma requests_foldl_processSegment:
  "requests (foldl (processSegment w) st segs) = requests st + length segs"
  by (induction segs arbitrary: st) (simp_all add: requests_processSegment)

lemma map_Some_extractSegments:
  "map Some (extractSegments objs) = filter (\<lambda>x. x \<noteq> None) (map ActivitySegment objs)"
  by (induction objs) (auto simp: extractSegments_def split: option.splits)

lemma length_extractSegments:
  "length (extractSegments objs) = length (filter (\<lambda>obj. ActivitySegment obj \<noteq> None) objs)"
  by (induction objs) (auto simp: extractSegments_def split: option.splits)

lemma report_processSegment:
  "countryDistancesByDay (processSegment w st seg) =
     (case resolveSegment w (requests st) seg of
        None \<Rightarrow> countryDistancesByDay st
      | Some r \<Rightarrow> addDistance (countryDistancesByDay st) (fst r) (fst (snd r)) (snd (snd r)))"
  by (simp add: processSegment_def resolveSegment_def Let_def split: sum.splits option.splits)

lemma report_foldl_processSegment:
  "countryDistancesByDay (foldl (processSegment w) st segs) =
     aggregate (countryDistancesByDay st) (resolved w (requests st) segs)"
proof (induction segs arbitrary: st)
  case Nil
  show ?case by (simp add: aggregate_def)
next
  case (Cons seg segs)
  show ?case
    using Cons.IH[of "processSegment w st seg"]
    by (simp add: report_processSegment requests_processSegment aggregate_def split: option.splits)
qed

lemma bucket_addDistance:
  "bucket (addDistance m c d km) c' d' =
     (if c' = c \<and> d' = d then Some (fadd (case bucket m c d of None \<Rightarrow> Fin 0 | Some v \<Rightarrow> v) km)
      else bucket m c' d')"
  by (auto simp: bucket_def addDistance_def Let_def split: option.splits)

lemma dom_addDistance: "dom (addDistance m c d km) = insert c (dom m)"
  by (auto simp: addDistance_def Let_def split: option.splits if_splits)

lemma bucket_aggregate:
  "bucket (aggregate m rs) c d =
     (case bucket m c d of
        None \<Rightarrow> (if contributions rs c d = [] then None
                  else Some (foldl fadd (Fin 0) (contributions rs c d)))
      | Some v \<Rightarrow> Some (foldl fadd v (contributions rs c d)))"
proof (induction rs arbitrary: m)
  case Nil
  show ?case by (simp add: aggregate_def contributions_def split: option.splits)
next
  case (Cons r rs)
  have step: "aggregate m (r # rs) = aggregate (addDistance m (fst r) (fst (snd r)) (snd (snd r))) rs"
    by (simp add: aggregate_def)
  show ?case
    unfolding step Cons.IH bucket_addDistance
    by (auto simp: contributions_def split: option.splits)
qed

lemma dom_aggregate: "dom (aggregate m rs) = dom m \<union> fst ` set rs"
proof (induction rs arbitrary: m)
  case Nil
  show ?case by (simp add: aggregate_def)
next
  case (Cons r rs)
  have step: "aggregate m (r # rs) = aggregate (addDistance m (fst r) (fst (snd r)) (snd (snd r))) rs"
    by (simp add: aggregate_def)
  show ?case unfolding step Cons.IH dom_addDistance by auto
qed

lemma aggregate_country:
  "aggregate Map.empty rs c \<noteq> None \<longleftrightarrow> c \<in> fst ` set rs"
proof -
  have "c \<in> dom (aggregate Map.empty rs) \<longleftrightarrow> c \<in> fst ` set rs"
    by (simp add: dom_aggregate)
  then show ?thesis by (simp add: domIff)
qed

lemma report_runLoop:
  "countryDistancesByDay (runLoop w objs) = aggregate Map.empty (resolved w 0 (extractSegments objs))"
  by (simp add: runLoop_def foldl_loopBody report_foldl_processSegment initial_def)

lemma skipped_resolveSegment: "skipped w k seg \<longleftrightarrow> resolveSegment w k seg = None"
  by (auto simp: skipped_def resolveSegment_def split: sum.splits option.splits)

lemma requests_runLoop: "requests (runLoop w objs) = length (extractSegments objs)"
  by (simp add: runLoop_def foldl_loopBody requests_foldl_processSegment initial_def)


lemma bucket_runLoop:
  "bucket (countryDistancesByDay (runLoop w objs)) country date =
     (if contributions (resolved w 0 (extractSegments objs)) country date = [] then None
      else Some (foldl fadd (Fin 0) (contributions (resolved w 0 (extractSegments objs)) country date)))"
proof -
  have "bucket Map.empty country date = None" by (simp add: bucket_def)
  then show ?thesis unfolding report_runLoop by (simp add: bucket_aggregate)
qed

subsection \<open>Kilometres\<close>

lemma kilometres_negative:
  assumes "sint (Distance seg) < 0"
  shows "\<exists>r. kilometres seg = Fin r \<and> r < 0 \<and>
             \<bar>r - of_int (sint (Distance seg)) / 1000\<bar>
               \<le> \<bar>of_int (sint (Distance seg)) / 1000\<bar> * (2 + 1 / 2 ^ 53) / 2 ^ 53"
proof -
  have nz: "sint (Distance seg) \<noteq> 0" using assms by simp
  from div_int_const[of 1000 "sint (Distance seg)", OF _ _ nz sint64_abs] assms
  show ?thesis unfolding kilometres_def float64_of_int64_def by (auto simp del: of_int_sint)
qed

lemma kilometres_finite:
  "\<exists>q. kilometres seg = Fin q \<and> ongrid q \<and> \<bar>q\<bar> \<le> 2 ^ 55"
proof (cases "sint (Distance seg) = 0")
  case True
  then have "kilometres seg = Fin 0"
    unfolding kilometres_def float64_of_int64_def by (simp add: round64_def fdiv_zero_pos)
  then show ?thesis by simp
next
  case False
  let ?n = "sint (Distance seg)"
  let ?x = "rat_of_int ?n / 1000"
  from div_int_const[of 1000 ?n, OF _ _ False sint64_abs] obtain r where
    r: "fdiv (round64 (of_int ?n)) (Fin 1000) = Fin r"
    and e: "\<bar>r - ?x\<bar> \<le> \<bar>?x\<bar> * (2 + 1 / 2 ^ 53) / 2 ^ 53"
    by auto
  from fdiv_int_round[of 1000 ?n, OF _ sint64_abs] obtain q where
    "fdiv (round64 (of_int ?n)) (Fin 1000) = round64 q" by auto
  then have g: "ongrid r" using r round64_Fin_grid[of q r] by simp
  have "rat_of_int \<bar>?n\<bar> \<le> of_int (2 ^ 63)" using sint64_abs[of "Distance seg"] by (simp only: of_int_le_iff)
  then have "\<bar>rat_of_int ?n\<bar> \<le> 2 ^ 63" by (simp del: of_int_sint)
  then have x: "\<bar>?x\<bar> \<le> 2 ^ 63 / 1000" by (simp del: of_int_sint)
  have "\<bar>?x\<bar> * (2 + 1 / 2 ^ 53) / 2 ^ 53 \<le> \<bar>?x\<bar>" by (simp add: field_simps del: of_int_sint)
  then have "\<bar>r\<bar> \<le> 2 * \<bar>?x\<bar>" using e by linarith
  also have "\<dots> \<le> 2 * (2 ^ 63 / 1000)" using x by linarith
  also have "\<dots> \<le> (2::rat) ^ 55" by simp
  finally have "\<bar>r\<bar> \<le> 2 ^ 55" .
  then show ?thesis using r g unfolding kilometres_def float64_of_int64_def by blast
qed

lemma resolved_kilometres:
  "r \<in> set (resolved w k segs) \<Longrightarrow> \<exists>seg. snd (snd r) = kilometres seg"
  by (induction segs arbitrary: k)
     (auto simp: resolveSegment_def split: option.splits sum.splits)

subsection \<open>The examples, evaluated\<close>

lemma date_example:
  "map_option formatDate (parseRFC3339 ''2024-03-01T10:00:00-05:00'') = Some ''2024-03-01''"
  by code_simp

lemma resolveSegment_usWorld:
  assumes "StartTimestamp (Duration seg) = ''2024-03-01T10:00:00-05:00''"
  shows "resolveSegment usWorld k seg = Some (''us'', ''2024-03-01'', kilometres seg)"
proof -
  from date_example obtain t where
    "parseRFC3339 ''2024-03-01T10:00:00-05:00'' = Some t" "formatDate t = ''2024-03-01''"
    by blast
  then show ?thesis
    by (simp add: resolveSegment_def usWorld_def getCountryCode_def assms)
qed

lemma km_tripHuge: "kilometres tripHuge = Fin 9007199254740992"
  by code_simp

lemma km_tripKm: "kilometres tripKm = Fin 1"
  by code_simp

lemma km_tripUS: "kilometres tripUS = Fin 5"
  by code_simp

lemma ts_trips:
  "StartTimestamp (Duration tripUS) = ''2024-03-01T10:00:00-05:00''"
  "StartTimestamp (Duration tripHuge) = ''2024-03-01T10:00:00-05:00''"
  "StartTimestamp (Duration tripKm) = ''2024-03-01T10:00:00-05:00''"
  by (simp_all add: tripUS_def tripHuge_def tripKm_def)

lemma sum_hugeFirst: "foldl fadd (Fin 0) [Fin 9007199254740992, Fin 1, Fin 1] = Fin 9007199254740992"
  by code_simp

lemma sum_hugeLast: "foldl fadd (Fin 0) [Fin 1, Fin 1, Fin 9007199254740992] = Fin 9007199254740994"
  by code_simp


lemma date_tripFR:
  "map_option formatDate (parseRFC3339 ''2024-03-01T09:00:00+01:00'') = Some ''2024-03-01''"
  by code_simp

lemma resolve_tripUS:
  "resolveSegment exampleWorld 0 tripUS = Some (''us'', ''2024-03-01'', Fin 5)"
proof -
  from date_example obtain t where
    "parseRFC3339 ''2024-03-01T10:00:00-05:00'' = Some t" "formatDate t = ''2024-03-01''"
    by blast
  then show ?thesis
    by (simp add: resolveSegment_def exampleWorld_def getCountryCode_def ts_trips km_tripUS)
qed

lemma km_tripFR: "kilometres tripFR = Fin 3"
  by code_simp

lemma resolve_tripFR:
  "resolveSegment exampleWorld (Suc 0) tripFR = Some (''fr'', ''2024-03-01'', Fin 3)"
proof -
  from date_tripFR obtain t where
    "parseRFC3339 ''2024-03-01T09:00:00+01:00'' = Some t" "formatDate t = ''2024-03-01''"
    by blast
  moreover have "StartTimestamp (Duration tripFR) = ''2024-03-01T09:00:00+01:00''"
    by (simp add: tripFR_def)
  ultimately show ?thesis
    by (simp add: resolveSegment_def exampleWorld_def getCountryCode_def km_tripFR)
qed

lemma resolved_example:
  "resolved exampleWorld 0 (extractSegments exampleObjects) =
     [(''us'', ''2024-03-01'', Fin 5), (''fr'', ''2024-03-01'', Fin 3)]"
  by (simp add: exampleObjects_def extractSegments_def resolve_tripUS resolve_tripFR)

lemma fadd_0_5: "fadd (Fin 0) (Fin 5) = Fin 5"
  by code_simp

lemma fadd_0_3: "fadd (Fin 0) (Fin 3) = Fin 3"
  by code_simp

lemma report_example:
  "countryDistancesByDay (runLoop exampleWorld exampleObjects) =
     [''us'' \<mapsto> [''2024-03-01'' \<mapsto> Fin 5], ''fr'' \<mapsto> [''2024-03-01'' \<mapsto> Fin 3]]"
  unfolding report_runLoop resolved_example
  by (simp add: aggregate_def addDistance_def Let_def fadd_0_5 fadd_0_3 del: fadd.simps)

lemma km_tripBack: "kilometres tripBack = Fin (- 1)"
  by code_simp

lemma fadd_5_m1: "fadd (Fin 5) (Fin (- 1)) = Fin 4"
  by code_simp

lemma fadd_0_m1: "fadd (Fin 0) (Fin (- 1)) = Fin (- 1)"
  by code_simp

lemma parse_tripLate:
  "parseRFC3339 ''2024-03-01T00:30:00+01:00'' =
     Some \<lparr>year = 2024, month = 3, day = 1, hour = 0, minute = 30, second = 0, zoneOffset = 3600\<rparr>"
  by code_simp


section \<open>The run and the rendering\<close>

lemma written_all_fail: "written (\<lambda>k s. Some e) k ss = []"
  by (induction ss arbitrary: k) simp_all

lemma exitCode_main:
  "exitCode (main w) =
     (if \<exists>data timeline. readFile w = Inr data \<and> jsonUnmarshal w data = Inr timeline \<and>
            osCreate w (''distance_report_'' @ today w @ ''.txt'') = None
      then 0 else 1)"
  by (auto simp: main_def Let_def split: sum.splits option.splits)

lemma rangeOrder_mset:
  assumes "rangeOrder m ks" "rangeOrder m ks'"
  shows "mset ks = mset ks'"
  using assms unfolding rangeOrder_def by (metis set_eq_iff_mset_eq_distinct)

lemma mset_concat_map:
  "mset (concat (map f xs)) = (\<Sum>x\<in>#mset xs. mset (f x))"
  by (induction xs) simp_all

lemma hd_countryBlock: "m c = Some i \<Longrightarrow> hd (countryBlock ds m c) = countryLine c"
  by (simp add: countryBlock_def)

lemma mset_countryBlock:
  assumes "m c = Some i" "rangeOrder i (ds c)" "rangeOrder i (ds' c)"
  shows "mset (countryBlock ds m c) = mset (countryBlock ds' m c)"
proof -
  have "mset (ds c) = mset (ds' c)" by (rule rangeOrder_mset[OF assms(2,3)])
  then show ?thesis by (simp add: countryBlock_def assms(1) mset_concat_map)
qed

lemma rangeOrders_inner:
  assumes "rangeOrders m cs ds" "c \<in> dom m"
  shows "\<exists>i. m c = Some i \<and> rangeOrder i (ds c)"
proof -
  from assms have "c \<in> set cs" by (simp add: rangeOrders_def rangeOrder_def)
  with assms(1) show ?thesis
    by (auto simp: rangeOrders_def list_all_iff split: option.splits)
qed

section \<open>The segments that count for a bucket\<close>

lemma getCountryCode_Inr:
  "getCountryCode get lat lng = Inr c \<longleftrightarrow> get (requestURL lat lng) = Decoded c \<and> c \<noteq> []"
  by (auto simp: getCountryCode_def split: lookup_result.splits)

lemma formatDate_parse:
  assumes "parseRFC3339 s = Some t"
  shows "formatDate t = take 10 s"
proof -
  from assms obtain y mo d r where
    pd: "parseDate s = Some (y, mo, d, r)" and t: "year t = y" "month t = mo" "day t = d"
    by (auto simp: parseRFC3339_def split: Option.bind_splits if_splits prod.splits)
  show ?thesis unfolding parseDate_shape[OF pd] formatDate_def t ..
qed

lemma resolveSegment_Some:
  "resolveSegment w k seg = Some (c, d, km) \<longleftrightarrow>
     matches w k seg c d \<and> km = fdiv (float64_of_int64 (Distance seg)) (Fin 1000)"
proof -
  let ?lat = "toFloatCoord (LatitudeE7 (StartLocation seg))"
  let ?lng = "toFloatCoord (LongitudeE7 (StartLocation seg))"
  let ?ts = "StartTimestamp (Duration seg)"
  have g: "getCountryCode (httpGet w k) ?lat ?lng = Inr x \<longleftrightarrow>
             httpGet w k (requestURL ?lat ?lng) = Decoded x \<and> x \<noteq> []" for x
    by (rule getCountryCode_Inr)
  show ?thesis
  proof (cases "getCountryCode (httpGet w k) ?lat ?lng")
    case (Inl e)
    then have "\<not> matches w k seg c d" using g[of c] by (simp add: matches_def)
    then show ?thesis using Inl by (simp add: resolveSegment_def)
  next
    case (Inr c')
    then have dec: "httpGet w k (requestURL ?lat ?lng) = Decoded c'" "c' \<noteq> []"
      using g[of c'] by simp_all
    show ?thesis
    proof (cases "parseRFC3339 ?ts")
      case None
      then have "\<not> matches w k seg c d" by (simp add: matches_def)
      then show ?thesis using Inr None by (simp add: resolveSegment_def)
    next
      case (Some t)
      have m: "matches w k seg c d \<longleftrightarrow> c' = c \<and> take 10 ?ts = d"
        using dec Some by (auto simp: matches_def)
      show ?thesis
        using Inr Some m formatDate_parse[OF Some]
        by (auto simp: resolveSegment_def kilometres_def)
    qed
  qed
qed

lemma contributions_matching:
  "contributions (resolved w k segs) c d =
     map (\<lambda>seg. fdiv (float64_of_int64 (Distance seg)) (Fin 1000)) (matching w k segs c d)"
proof (induction segs arbitrary: k)
  case Nil
  show ?case by (simp add: contributions_def)
next
  case (Cons seg segs)
  show ?case
  proof (cases "resolveSegment w k seg")
    case None
    then have "\<not> matches w k seg c d"
      using resolveSegment_Some[of w k seg c d "fdiv (float64_of_int64 (Distance seg)) (Fin 1000)"]
      by simp
    then show ?thesis using None Cons.IH[of "k + 1"] by (simp add: contributions_def)
  next
    case (Some r)
    obtain c' d' km where r: "r = (c', d', km)" by (cases r)
    from Some r resolveSegment_Some[of w k seg c' d' km]
    have m': "matches w k seg c' d'" and km: "km = fdiv (float64_of_int64 (Distance seg)) (Fin 1000)"
      by simp_all
    have iff: "matches w k seg c d \<longleftrightarrow> c' = c \<and> d' = d"
      using m' by (auto simp: matches_def)
    show ?thesis using Some r km iff Cons.IH[of "k + 1"]
      by (auto simp: contributions_def)
  qed
qed

lemma matching_append:
  "matching w k (xs @ ys) c d = matching w k xs c d @ matching w (k + length xs) ys c d"
  by (induction xs arbitrary: k) simp_all

lemma skipped_not_matches: "skipped w k seg \<Longrightarrow> \<not> matches w k seg c d"
  by (auto simp: skipped_def matches_def getCountryCode_def split: lookup_result.splits)

lemma set_matching:
  "x \<in> set (matching w k segs c d) \<Longrightarrow>
     x \<in> set segs \<and> parseRFC3339 (StartTimestamp (Duration x)) \<noteq> None \<and>
     take 10 (StartTimestamp (Duration x)) = d"
  by (induction segs arbitrary: k) (auto simp: matches_def split: if_splits)

lemma extractSegments_append:
  "extractSegments (xs @ ys) = extractSegments xs @ extractSegments ys"
  by (simp add: extractSegments_def)

lemma bucket_runLoop_matching:
  "bucket (countryDistancesByDay (runLoop w objs)) c d =
     (if matching w 0 (extractSegments objs) c d = [] then None
      else Some (foldl fadd (Fin 0)
             (map (\<lambda>seg. fdiv (float64_of_int64 (Distance seg)) (Fin 1000))
                (matching w 0 (extractSegments objs) c d))))"
  unfolding bucket_runLoop contributions_matching by simp

lemma country_runLoop_matching:
  "countryDistancesByDay (runLoop w objs) c \<noteq> None \<longleftrightarrow>
     (\<exists>d. matching w 0 (extractSegments objs) c d \<noteq> [])"
proof -
  let ?rs = "resolved w 0 (extractSegments objs)"
  have "c \<in> fst ` set ?rs \<longleftrightarrow> (\<exists>d. contributions ?rs c d \<noteq> [])"
    by (force simp: contributions_def filter_empty_conv)
  then show ?thesis
    unfolding report_runLoop aggregate_country contributions_matching by simp
qed

subsection \<open>The float64 total and the exact sum\<close>

lemma kilometres_approx:
  fixes seg :: ActivitySegment
  shows "\<exists>q. fdiv (float64_of_int64 (Distance seg)) (Fin 1000) = Fin q \<and> ongrid q \<and> \<bar>q\<bar> \<le> 2 ^ 55 \<and>
       \<bar>q - of_int (sint (Distance seg)) / 1000\<bar>
         \<le> (2 + 1 / 2 ^ 53) / 2 ^ 53 * \<bar>of_int (sint (Distance seg)) / 1000\<bar>"
proof (cases "sint (Distance seg) = 0")
  case True
  then have "fdiv (float64_of_int64 (Distance seg)) (Fin 1000) = Fin 0"
    unfolding float64_of_int64_def by (simp add: round64_def fdiv_zero_pos)
  then show ?thesis using True by (simp del: of_int_sint)
next
  case False
  let ?n = "sint (Distance seg)"
  let ?x = "rat_of_int ?n / 1000"
  from div_int_const[of 1000 ?n, OF _ _ False sint64_abs] obtain r where
    r: "fdiv (round64 (of_int ?n)) (Fin 1000) = Fin r"
    and e: "\<bar>r - ?x\<bar> \<le> \<bar>?x\<bar> * (2 + 1 / 2 ^ 53) / 2 ^ 53"
    by auto
  from kilometres_finite[of seg] r have g: "ongrid r" "\<bar>r\<bar> \<le> 2 ^ 55"
    unfolding kilometres_def float64_of_int64_def by auto
  have "\<bar>?x\<bar> * (2 + 1 / 2 ^ 53) / 2 ^ 53 = (2 + 1 / 2 ^ 53) / 2 ^ 53 * \<bar>?x\<bar>"
    by (simp del: of_int_sint)
  with e have "\<bar>r - ?x\<bar> \<le> (2 + 1 / 2 ^ 53) / 2 ^ 53 * \<bar>?x\<bar>" by (simp only:)
  then show ?thesis using r g unfolding float64_of_int64_def by blast
qed

lemma sum_abs_le:
  fixes f :: "'a \<Rightarrow> rat"
  assumes "\<forall>a\<in>set as. \<bar>f a\<bar> \<le> B"
  shows "(\<Sum>a\<leftarrow>as. \<bar>f a\<bar>) \<le> of_nat (length as) * B"
  using assms
proof (induction as)
  case Nil
  show ?case by simp
next
  case (Cons a as)
  then have "\<bar>f a\<bar> \<le> B" "(\<Sum>a\<leftarrow>as. \<bar>f a\<bar>) \<le> of_nat (length as) * B" by auto
  then show ?case by (simp add: algebra_simps)
qed

lemma sum_close:
  fixes f g :: "'a \<Rightarrow> rat"
  assumes "\<forall>a\<in>set as. \<bar>f a - g a\<bar> \<le> c * \<bar>g a\<bar>"
  shows "\<bar>(\<Sum>a\<leftarrow>as. f a) - (\<Sum>a\<leftarrow>as. g a)\<bar> \<le> c * (\<Sum>a\<leftarrow>as. \<bar>g a\<bar>)"
    and "(\<Sum>a\<leftarrow>as. \<bar>f a\<bar>) \<le> (1 + c) * (\<Sum>a\<leftarrow>as. \<bar>g a\<bar>)"
  using assms
proof (induction as)
  case Nil
  {
    case 1
    show ?case by simp
  next
    case 2
    show ?case by simp
  }
next
  case (Cons a as)
  {
    case 1
    then have h: "\<bar>f a - g a\<bar> \<le> c * \<bar>g a\<bar>"
      and ih: "\<bar>(\<Sum>a\<leftarrow>as. f a) - (\<Sum>a\<leftarrow>as. g a)\<bar> \<le> c * (\<Sum>a\<leftarrow>as. \<bar>g a\<bar>)"
      using Cons.IH(1) by auto
    have "\<bar>(\<Sum>a\<leftarrow>a # as. f a) - (\<Sum>a\<leftarrow>a # as. g a)\<bar>
          \<le> \<bar>f a - g a\<bar> + \<bar>(\<Sum>a\<leftarrow>as. f a) - (\<Sum>a\<leftarrow>as. g a)\<bar>" by simp
    also have "\<dots> \<le> c * \<bar>g a\<bar> + c * (\<Sum>a\<leftarrow>as. \<bar>g a\<bar>)" using h ih by linarith
    finally show ?case by (simp add: algebra_simps)
  next
    case 2
    then have h: "\<bar>f a - g a\<bar> \<le> c * \<bar>g a\<bar>"
      and ih: "(\<Sum>a\<leftarrow>as. \<bar>f a\<bar>) \<le> (1 + c) * (\<Sum>a\<leftarrow>as. \<bar>g a\<bar>)"
      using Cons.IH(2) by auto
    have "\<bar>f a\<bar> \<le> \<bar>g a\<bar> + \<bar>f a - g a\<bar>" by linarith
    then have "\<bar>f a\<bar> \<le> (1 + c) * \<bar>g a\<bar>" using h by (simp add: algebra_simps)
    then show ?case using ih by (simp add: algebra_simps)
  }
qed

lemma kilometres_sum_bound:
  fixes ms :: "ActivitySegment list"
  assumes n: "length ms \<le> 2 ^ 52"
  shows "\<exists>s. foldl fadd (Fin 0) (map (\<lambda>seg. fdiv (float64_of_int64 (Distance seg)) (Fin 1000)) ms) = Fin s \<and>
             \<bar>s - (\<Sum>seg\<leftarrow>ms. of_int (sint (Distance seg)) / 1000)\<bar>
               \<le> (2 * of_nat (length ms) + 5) / 2 ^ 53 *
                  (\<Sum>seg\<leftarrow>ms. \<bar>of_int (sint (Distance seg)) / 1000\<bar>)"
proof -
  define km where "km = (\<lambda>seg :: ActivitySegment. fdiv (float64_of_int64 (Distance seg)) (Fin 1000))"
  define q where "q = (\<lambda>seg. valof (km seg))"
  define x :: "ActivitySegment \<Rightarrow> rat" where "x = (\<lambda>seg. of_int (sint (Distance seg)) / 1000)"
  define u :: rat where "u = 1 / 2 ^ 53"
  define c :: rat where "c = (2 + u) * u"
  define N :: rat where "N = of_nat (length ms)"
  define X where "X = (\<Sum>seg\<leftarrow>ms. \<bar>x seg\<bar>)"
  define A where "A = (\<Sum>seg\<leftarrow>ms. \<bar>q seg\<bar>)"
  have u0: "0 \<le> u" by (simp add: u_def)
  have c0: "0 \<le> c" by (simp add: c_def u_def)
  have X0: "0 \<le> X" unfolding X_def by (induction ms) auto
  have ka: "km seg = Fin (q seg) \<and> ongrid (q seg) \<and> \<bar>q seg\<bar> \<le> 2 ^ 55 \<and>
            \<bar>q seg - x seg\<bar> \<le> c * \<bar>x seg\<bar>" for seg
    using kilometres_approx[of seg] by (auto simp: km_def q_def x_def c_def u_def valof_def)
  have mk: "map km ms = map Fin (map q ms)" using ka by simp
  have g: "\<forall>r\<in>set (map q ms). ongrid r" using ka by simp
  have "(of_nat (length ms) :: rat) \<le> of_nat (2 ^ 52)" using n by (simp only: of_nat_le_iff)
  then have N52: "N \<le> 2 ^ 52" by (simp add: N_def)
  then have nu: "2 * N * u \<le> 1" by (simp add: u_def)
  have N0: "0 \<le> N" by (simp add: N_def)
  have "A \<le> N * 2 ^ 55" unfolding A_def N_def using ka by (intro sum_abs_le) simp
  also have "\<dots> \<le> 2 ^ 52 * 2 ^ 55" using N52 by (intro mult_right_mono) auto
  finally have "2 * A \<le> 2 * (2 ^ 52 * 2 ^ 55)" by simp
  also have "\<dots> \<le> (2::rat) ^ 1023" by simp
  finally have ov: "2 * A \<le> 2 ^ 1023" .
  have A_eq: "(\<Sum>r\<leftarrow>map q ms. \<bar>r\<bar>) = A" by (simp add: A_def comp_def)
  have h2: "2 * of_nat (length (map q ms)) * (1 / 2 ^ 53 :: rat) \<le> 1"
    using nu by (simp add: N_def u_def)
  have h3: "2 * (\<Sum>r\<leftarrow>map q ms. \<bar>r\<bar>) \<le> 2 ^ 1023"
    unfolding A_eq by (rule ov)
  from float_sum_error[OF g h2 h3] obtain s where
    s0: "foldl fadd (Fin 0) (map Fin (map q ms)) = Fin s"
    and es0: "\<bar>s - sum_list (map q ms)\<bar>
              \<le> ((1 + 1 / 2 ^ 53) ^ length (map q ms) - 1) * (\<Sum>r\<leftarrow>map q ms. \<bar>r\<bar>)"
    by blast
  have s: "foldl fadd (Fin 0) (map km ms) = Fin s" using s0 by (simp only: mk)
  have es: "\<bar>s - sum_list (map q ms)\<bar> \<le> ((1 + u) ^ length ms - 1) * A"
    using es0 unfolding A_eq by (simp only: u_def length_map)
  have A0: "0 \<le> A" unfolding A_def by (induction ms) auto
  have "(1 + u) ^ length ms - 1 \<le> 2 * N * u"
    using pow_bound[OF u0, of "length ms"] nu by (simp add: N_def)
  then have "((1 + u) ^ length ms - 1) * A \<le> 2 * N * u * A"
    using A0 by (intro mult_right_mono) auto
  with es have e1: "\<bar>s - sum_list (map q ms)\<bar> \<le> 2 * N * u * A" by linarith
  have cl: "\<forall>seg\<in>set ms. \<bar>q seg - x seg\<bar> \<le> c * \<bar>x seg\<bar>" using ka by simp
  have e2: "\<bar>sum_list (map q ms) - sum_list (map x ms)\<bar> \<le> c * X"
    unfolding X_def by (rule sum_close(1)[OF cl])
  have AX: "A \<le> (1 + c) * X" unfolding A_def X_def by (rule sum_close(2)[OF cl])
  have "2 * N * u * A \<le> 2 * N * u * ((1 + c) * X)"
    using AX N0 u0 by (intro mult_left_mono) auto
  also have "\<dots> = 2 * N * u * X + (2 * N * u) * (c * X)" by (simp add: algebra_simps)
  also have "\<dots> \<le> 2 * N * u * X + 1 * (c * X)"
    using nu c0 X0 by (intro add_left_mono mult_right_mono) auto
  finally have e3: "2 * N * u * A \<le> 2 * N * u * X + c * X" by simp
  have "2 * c \<le> 5 * u" by (simp add: c_def u_def)
  then have "2 * c * X \<le> 5 * u * X" using X0 by (intro mult_right_mono) auto
  then have e4: "c * X + c * X \<le> 5 * u * X" by (simp add: algebra_simps)
  have "\<bar>s - sum_list (map x ms)\<bar> \<le> \<bar>s - sum_list (map q ms)\<bar> + \<bar>sum_list (map q ms) - sum_list (map x ms)\<bar>"
    by linarith
  also have "\<dots> \<le> (2 * N * u * X + c * X) + c * X" using e1 e2 e3 by linarith
  also have "\<dots> \<le> 2 * N * u * X + 5 * u * X" using e4 by linarith
  also have "\<dots> = (2 * N + 5) / 2 ^ 53 * X" by (simp add: u_def algebra_simps)
  finally have "\<bar>s - sum_list (map x ms)\<bar> \<le> (2 * N + 5) / 2 ^ 53 * X" .
  then show ?thesis using s by (auto simp: km_def x_def N_def X_def)
qed

subsection \<open>More of the examples, evaluated\<close>

lemma matches_exampleWorld_tripUS:
  "matches exampleWorld 0 tripUS c d \<longleftrightarrow> c = ''us'' \<and> d = ''2024-03-01''"
proof -
  from date_example have "parseRFC3339 ''2024-03-01T10:00:00-05:00'' \<noteq> None" by auto
  then show ?thesis by (auto simp: matches_def exampleWorld_def ts_trips)
qed

lemma matches_exampleWorld_tripFR:
  "matches exampleWorld (Suc 0) tripFR c d \<longleftrightarrow> c = ''fr'' \<and> d = ''2024-03-01''"
proof -
  from date_tripFR have "parseRFC3339 ''2024-03-01T09:00:00+01:00'' \<noteq> None" by auto
  moreover have "StartTimestamp (Duration tripFR) = ''2024-03-01T09:00:00+01:00''"
    by (simp add: tripFR_def)
  ultimately show ?thesis by (auto simp: matches_def exampleWorld_def)
qed

lemma km_expr_tripUS: "fdiv (float64_of_int64 (Distance tripUS)) (Fin 1000) = Fin 5"
  using km_tripUS by (simp add: kilometres_def)

lemma km_expr_tripFR: "fdiv (float64_of_int64 (Distance tripFR)) (Fin 1000) = Fin 3"
  using km_tripFR by (simp add: kilometres_def)

lemma matches_flaky:
  assumes "StartTimestamp (Duration seg) = ''2024-03-01T10:00:00-05:00''"
  shows "matches flakyWorld k seg ''us'' ''2024-03-01'' \<longleftrightarrow> k \<noteq> 1"
proof -
  from date_example have "parseRFC3339 ''2024-03-01T10:00:00-05:00'' \<noteq> None" by auto
  then show ?thesis by (auto simp: matches_def flakyWorld_def assms)
qed

lemma matches_usWorld:
  assumes "StartTimestamp (Duration seg) = ''2024-03-01T10:00:00-05:00''"
  shows "matches usWorld k seg ''us'' ''2024-03-01''"
proof -
  from date_example have "parseRFC3339 ''2024-03-01T10:00:00-05:00'' \<noteq> None" by auto
  then show ?thesis by (auto simp: matches_def usWorld_def assms)
qed

lemma parse_yesterday: "parseRFC3339 ''yesterday'' = None"
  by code_simp

lemma km_expr_tripKm: "fdiv (float64_of_int64 (Distance tripKm)) (Fin 1000) = Fin 1"
  using km_tripKm by (simp add: kilometres_def)

lemma sum_5_1: "foldl fadd (Fin 0) [Fin 5, Fin 1] = Fin 6"
  by code_simp

lemma parse_tripFR:
  "parseRFC3339 ''2024-03-01T09:00:00+01:00'' =
     Some \<lparr>year = 2024, month = 3, day = 1, hour = 9, minute = 0, second = 0, zoneOffset = 3600\<rparr>"
  by code_simp

section \<open>The claims\<close>

text \<open>
  C3: the conversion of an E7 coordinate divides by 10,000,000 in float64. For 0,
  107000000 and -523456780 it returns 0.0 and the float64 values nearest to 10.7 and
  to -52.345678, which is what these literals denote. For every 64-bit input the
  result is finite and within a relative error of 2 / 2^53 + 1 / 2^106 of the exact
  quotient, and for inputs of magnitude up to 2^53, which covers every coordinate, it
  is the exact quotient rounded once.
\<close>

theorem toFloatCoord_correct:
  "toFloatCoord 0 = Fin 0 \<and>
   toFloatCoord 107000000 = round64 (107 / 10) \<and>
   toFloatCoord (- 523456780) = round64 (- 52345678 / 1000000) \<and>
   (\<exists>r. toFloatCoord x = Fin r \<and>
        \<bar>r - of_int (sint x) / 10 ^ 7\<bar> \<le> \<bar>of_int (sint x) / 10 ^ 7\<bar> * (2 + 1 / 2 ^ 53) / 2 ^ 53) \<and>
   (\<bar>sint x\<bar> \<le> 2 ^ 53 \<longrightarrow> toFloatCoord x = round64 (of_int (sint x) / 10 ^ 7))"
proof (intro conjI impI)
  have ex: "toFloatCoord y = round64 (of_int (sint y) / 10 ^ 7)" if "\<bar>sint y\<bar> \<le> 2 ^ 53" for y
    unfolding toFloatCoord_def float64_of_int64_def
    using div_int_const_exact[of "10 ^ 7" "sint y"] that by simp
  show "toFloatCoord 0 = Fin 0" by (simp add: toFloatCoord_zero)
  have "toFloatCoord 107000000 = round64 (of_int (sint (107000000 :: 64 word)) / 10 ^ 7)"
    by (rule ex) simp
  then show "toFloatCoord 107000000 = round64 (107 / 10)" by simp
  have "toFloatCoord (- 523456780) = round64 (of_int (sint (- 523456780 :: 64 word)) / 10 ^ 7)"
    by (rule ex) simp
  then show "toFloatCoord (- 523456780) = round64 (- 52345678 / 1000000)" by simp
  show "toFloatCoord x = round64 (of_int (sint x) / 10 ^ 7)" if "\<bar>sint x\<bar> \<le> 2 ^ 53"
    using that by (rule ex)
  show "\<exists>r. toFloatCoord x = Fin r \<and>
        \<bar>r - of_int (sint x) / 10 ^ 7\<bar> \<le> \<bar>of_int (sint x) / 10 ^ 7\<bar> * (2 + 1 / 2 ^ 53) / 2 ^ 53"
  proof (cases "sint x = 0")
    case True
    then show ?thesis by (simp add: toFloatCoord_zero del: of_int_sint)
  next
    case False
    from div_int_const[of "10 ^ 7" "sint x", OF _ _ False sint64_abs]
    show ?thesis unfolding toFloatCoord_def float64_of_int64_def by auto
  qed
qed

theorem toFloatCoord_correct_witness:
  "\<bar>sint (400000000 :: 64 word)\<bar> \<le> 2 ^ 53 \<and> toFloatCoord 400000000 = Fin 40 \<and>
   toFloatCoord 107000000 = Fin (3011782250804019 / 281474976710656) \<and>
   toFloatCoord (- 523456780) = Fin (- (7366999247976749 / 140737488355328))"
proof -
  have h: "\<bar>sint (400000000 :: 64 word)\<bar> \<le> 2 ^ 53" by simp
  have "toFloatCoord 400000000 = round64 (of_int (sint (400000000 :: 64 word)) / 10 ^ 7)"
    using toFloatCoord_correct[of 400000000] h by blast
  also have "\<dots> = round64 40" by simp
  also have "\<dots> = Fin 40" by code_simp
  finally have a: "toFloatCoord 400000000 = Fin 40" .
  have "round64 (107 / 10) = Fin (3011782250804019 / 281474976710656)" by code_simp
  then have b: "toFloatCoord 107000000 = Fin (3011782250804019 / 281474976710656)"
    using toFloatCoord_correct[of 0] by simp
  have "round64 (- 52345678 / 1000000) = Fin (- (7366999247976749 / 140737488355328))"
    by code_simp
  then have c: "toFloatCoord (- 523456780) = Fin (- (7366999247976749 / 140737488355328))"
    using toFloatCoord_correct[of 0] by simp
  show ?thesis using h a b c by blast
qed

text \<open>
  C1: after the loop, the value under a country and a date is the float64 sum, taken
  in processing order from 0, of distance / 1000.0 over exactly the segments that
  count for that country and date, and no bucket exists when there is none. For up to
  2^52 such segments the value is finite and within (2 n + 5) / 2^53 times the sum of
  the |distance| / 1000 of the exact sum of the distances in metres divided by 1000. A
  country has an inner map exactly when some segment counts for it.
\<close>

theorem report_is_sum:
  "(let ms = matching w 0 (extractSegments objs) country date;
        total = bucket (countryDistancesByDay (runLoop w objs)) country date
    in total = (if ms = [] then None
                else Some (foldl fadd (Fin 0)
                       (map (\<lambda>seg. fdiv (float64_of_int64 (Distance seg)) (Fin 1000)) ms))) \<and>
       (ms \<noteq> [] \<and> length ms \<le> 2 ^ 52 \<longrightarrow>
          (\<exists>s. total = Some (Fin s) \<and>
               \<bar>s - (\<Sum>seg\<leftarrow>ms. of_int (sint (Distance seg)) / 1000)\<bar>
                 \<le> (2 * of_nat (length ms) + 5) / 2 ^ 53 *
                    (\<Sum>seg\<leftarrow>ms. \<bar>of_int (sint (Distance seg)) / 1000\<bar>)))) \<and>
   (countryDistancesByDay (runLoop w objs) country \<noteq> None \<longleftrightarrow>
      (\<exists>d. matching w 0 (extractSegments objs) country d \<noteq> []))"
proof -
  let ?ms = "matching w 0 (extractSegments objs) country date"
  let ?total = "bucket (countryDistancesByDay (runLoop w objs)) country date"
  have a: "?total = (if ?ms = [] then None
                else Some (foldl fadd (Fin 0)
                       (map (\<lambda>seg. fdiv (float64_of_int64 (Distance seg)) (Fin 1000)) ?ms)))"
    by (rule bucket_runLoop_matching)
  have b: "\<exists>s. ?total = Some (Fin s) \<and>
               \<bar>s - (\<Sum>seg\<leftarrow>?ms. of_int (sint (Distance seg)) / 1000)\<bar>
                 \<le> (2 * of_nat (length ?ms) + 5) / 2 ^ 53 *
                    (\<Sum>seg\<leftarrow>?ms. \<bar>of_int (sint (Distance seg)) / 1000\<bar>)"
    if "?ms \<noteq> []" "length ?ms \<le> 2 ^ 52"
    using kilometres_sum_bound[OF that(2)] that(1) unfolding a by simp
  show ?thesis
    unfolding Let_def using a b country_runLoop_matching[of w objs country] by blast
qed

theorem report_is_sum_witness:
  "matching exampleWorld 0 (extractSegments exampleObjects) ''us'' ''2024-03-01'' = [tripUS] \<and>
   matching exampleWorld 0 (extractSegments exampleObjects) ''fr'' ''2024-03-01'' = [tripFR] \<and>
   length [tripUS] \<le> 2 ^ 52 \<and>
   bucket (countryDistancesByDay (runLoop exampleWorld exampleObjects)) ''us'' ''2024-03-01''
     = Some (Fin 5) \<and>
   bucket (countryDistancesByDay (runLoop exampleWorld exampleObjects)) ''fr'' ''2024-03-01''
     = Some (Fin 3) \<and>
   bucket (countryDistancesByDay (runLoop exampleWorld exampleObjects)) ''us'' ''2024-03-02''
     = None"
proof -
  have es: "extractSegments exampleObjects = [tripUS, tripFR]"
    by (simp add: exampleObjects_def extractSegments_def)
  have m: "matching exampleWorld 0 (extractSegments exampleObjects) c d =
             (if c = ''us'' \<and> d = ''2024-03-01'' then [tripUS] else []) @
             (if c = ''fr'' \<and> d = ''2024-03-01'' then [tripFR] else [])" for c d
    unfolding es by (simp add: matches_exampleWorld_tripUS matches_exampleWorld_tripFR)
  have us: "matching exampleWorld 0 (extractSegments exampleObjects) ''us'' ''2024-03-01'' = [tripUS]"
    by (simp add: m)
  have fr: "matching exampleWorld 0 (extractSegments exampleObjects) ''fr'' ''2024-03-01'' = [tripFR]"
    by (simp add: m)
  have no: "matching exampleWorld 0 (extractSegments exampleObjects) ''us'' ''2024-03-02'' = []"
    by (simp add: m)
  have b1: "bucket (countryDistancesByDay (runLoop exampleWorld exampleObjects)) ''us'' ''2024-03-01''
     = Some (Fin 5)"
    using report_is_sum[of exampleWorld exampleObjects "''us''" "''2024-03-01''"]
    unfolding Let_def us by (simp add: km_expr_tripUS fadd_0_5 del: fadd.simps)
  have b2: "bucket (countryDistancesByDay (runLoop exampleWorld exampleObjects)) ''fr'' ''2024-03-01''
     = Some (Fin 3)"
    using report_is_sum[of exampleWorld exampleObjects "''fr''" "''2024-03-01''"]
    unfolding Let_def fr by (simp add: km_expr_tripFR fadd_0_3 del: fadd.simps)
  have b3: "bucket (countryDistancesByDay (runLoop exampleWorld exampleObjects)) ''us'' ''2024-03-02''
     = None"
    using report_is_sum[of exampleWorld exampleObjects "''us''" "''2024-03-02''"]
    unfolding Let_def no by simp
  show ?thesis using us fr b1 b2 b3 by simp
qed

text \<open>
  C2: a segment whose lookup fails or whose timestamp does not parse leaves every
  bucket as it was, and the loop goes on: at the end each bucket holds the float64 sum
  of distance / 1000.0 over the segments before and after the skipped one that count
  for it, and over nothing else.
\<close>

theorem skipped_segment_adds_nothing:
  assumes "ActivitySegment obj = Some seg"
    and "skipped w (length (extractSegments before)) seg"
  shows "countryDistancesByDay (runLoop w (before @ [obj])) = countryDistancesByDay (runLoop w before) \<and>
         requests (runLoop w (before @ [obj])) = requests (runLoop w before) + 1 \<and>
         (let ms = matching w 0 (extractSegments before) country date @
                   matching w (length (extractSegments before) + 1) (extractSegments rest) country date
          in bucket (countryDistancesByDay (runLoop w (before @ obj # rest))) country date =
               (if ms = [] then None
                else Some (foldl fadd (Fin 0)
                       (map (\<lambda>s. fdiv (float64_of_int64 (Distance s)) (Fin 1000)) ms))))"
proof -
  let ?k = "length (extractSegments before)"
  have st: "requests (runLoop w before) = ?k" by (rule requests_runLoop)
  have sk: "skipped w (requests (runLoop w before)) seg" using assms(2) by (simp only: st)
  have step: "runLoop w (before @ [obj]) = processSegment w (runLoop w before) seg"
    using assms(1) by (simp add: runLoop_def loopBody_def)
  have a: "countryDistancesByDay (runLoop w (before @ [obj])) = countryDistancesByDay (runLoop w before)"
    unfolding step using sk by (simp add: report_processSegment skipped_resolveSegment)
  have b: "requests (runLoop w (before @ [obj])) = requests (runLoop w before) + 1"
    unfolding step by (rule requests_processSegment)
  have ex: "extractSegments (before @ obj # rest) = extractSegments before @ seg # extractSegments rest"
    using assms(1) by (simp add: extractSegments_def)
  have nm: "\<not> matches w ?k seg country date" by (rule skipped_not_matches[OF assms(2)])
  have m: "matching w 0 (extractSegments (before @ obj # rest)) country date =
             matching w 0 (extractSegments before) country date @
             matching w (?k + 1) (extractSegments rest) country date"
    unfolding ex matching_append using nm by simp
  have c: "bucket (countryDistancesByDay (runLoop w (before @ obj # rest))) country date =
             (if matching w 0 (extractSegments before) country date @
                 matching w (?k + 1) (extractSegments rest) country date = [] then None
              else Some (foldl fadd (Fin 0)
                     (map (\<lambda>s. fdiv (float64_of_int64 (Distance s)) (Fin 1000))
                        (matching w 0 (extractSegments before) country date @
                         matching w (?k + 1) (extractSegments rest) country date))))"
    unfolding bucket_runLoop_matching m ..
  show ?thesis unfolding Let_def using a b c by blast
qed

theorem skipped_segment_adds_nothing_witness:
  "ActivitySegment \<lparr>ActivitySegment = Some tripUS\<rparr> = Some tripUS \<and>
   skipped flakyWorld (length (extractSegments [\<lparr>ActivitySegment = Some tripUS\<rparr>])) tripUS \<and>
   bucket (countryDistancesByDay (runLoop flakyWorld lookupFails)) ''us'' ''2024-03-01''
     = Some (Fin 6) \<and>
   ActivitySegment \<lparr>ActivitySegment = Some tripBadTime\<rparr> = Some tripBadTime \<and>
   skipped usWorld (length (extractSegments [\<lparr>ActivitySegment = Some tripUS\<rparr>])) tripBadTime \<and>
   bucket (countryDistancesByDay (runLoop usWorld timestampFails)) ''us'' ''2024-03-01''
     = Some (Fin 6)"
proof -
  let ?before = "[\<lparr>ActivitySegment = Some tripUS\<rparr>]"
  let ?rest = "[\<lparr>ActivitySegment = Some tripKm\<rparr>]"
  have eb: "extractSegments ?before = [tripUS]" and er: "extractSegments ?rest = [tripKm]"
    by (simp_all add: extractSegments_def)
  have s1: "skipped flakyWorld (length (extractSegments ?before)) tripUS"
    unfolding eb by (simp add: skipped_def flakyWorld_def getCountryCode_def)
  have s2: "skipped usWorld (length (extractSegments ?before)) tripBadTime"
    unfolding eb by (simp add: skipped_def tripBadTime_def parse_yesterday)
  have m1: "matching flakyWorld 0 (extractSegments ?before) ''us'' ''2024-03-01'' @
            matching flakyWorld (length (extractSegments ?before) + 1) (extractSegments ?rest)
              ''us'' ''2024-03-01'' = [tripUS, tripKm]"
    unfolding eb er by (simp add: matches_flaky ts_trips)
  have m2: "matching usWorld 0 (extractSegments ?before) ''us'' ''2024-03-01'' @
            matching usWorld (length (extractSegments ?before) + 1) (extractSegments ?rest)
              ''us'' ''2024-03-01'' = [tripUS, tripKm]"
    unfolding eb er by (simp add: matches_usWorld ts_trips)
  have l1: "lookupFails = ?before @ \<lparr>ActivitySegment = Some tripUS\<rparr> # ?rest"
    by (simp add: lookupFails_def)
  have l2: "timestampFails = ?before @ \<lparr>ActivitySegment = Some tripBadTime\<rparr> # ?rest"
    by (simp add: timestampFails_def)
  have b1: "bucket (countryDistancesByDay (runLoop flakyWorld lookupFails)) ''us'' ''2024-03-01''
     = Some (Fin 6)"
    using skipped_segment_adds_nothing[of "\<lparr>ActivitySegment = Some tripUS\<rparr>" tripUS flakyWorld
        ?before "''us''" "''2024-03-01''" ?rest, OF _ s1]
    unfolding Let_def m1 l1[symmetric]
    by (simp add: km_expr_tripUS km_expr_tripKm sum_5_1 del: foldl.simps fadd.simps)
  have b2: "bucket (countryDistancesByDay (runLoop usWorld timestampFails)) ''us'' ''2024-03-01''
     = Some (Fin 6)"
    using skipped_segment_adds_nothing[of "\<lparr>ActivitySegment = Some tripBadTime\<rparr>" tripBadTime usWorld
        ?before "''us''" "''2024-03-01''" ?rest, OF _ s2]
    unfolding Let_def m2 l2[symmetric]
    by (simp add: km_expr_tripUS km_expr_tripKm sum_5_1 del: foldl.simps fadd.simps)
  show ?thesis using s1 s2 b1 b2 by simp
qed

text \<open>
  C9: the loop works on exactly the segments of the objects that carry one, in the
  order of the input list: of N objects with M payloads, M segments are processed and
  M requests are made.
\<close>

theorem extraction_in_order:
  "runLoop w objs = foldl (processSegment w) initial (extractSegments objs) \<and>
   map Some (extractSegments objs) = filter (\<lambda>x. x \<noteq> None) (map ActivitySegment objs) \<and>
   length (extractSegments objs) = length (filter (\<lambda>obj. ActivitySegment obj \<noteq> None) objs) \<and>
   requests (runLoop w objs) = length (filter (\<lambda>obj. ActivitySegment obj \<noteq> None) objs)"
  by (simp add: runLoop_def foldl_loopBody map_Some_extractSegments requests_foldl_processSegment
      length_extractSegments initial_def)

text \<open>
  C8: the resolver returns a country code exactly when the response decodes and its
  country code is not empty. It returns an error exactly when the request fails, the
  body does not decode, or the country code is empty or absent; the three errors are
  values of the one error type and differ in their message only.
\<close>

theorem getCountryCode_outcomes:
  "(getCountryCode get lat lng = Inr c \<longleftrightarrow> get (requestURL lat lng) = Decoded c \<and> c \<noteq> []) \<and>
   (getCountryCode get lat lng = Inl e \<longleftrightarrow>
      get (requestURL lat lng) = GetFailed e \<or>
      get (requestURL lat lng) = DecodeFailed e \<or>
      (get (requestURL lat lng) = Decoded [] \<and>
       e = Error (''no country found for lat: '' @ fmtFloat 6 lat @ '', lng: '' @ fmtFloat 6 lng)))"
  by (auto simp: getCountryCode_def split: lookup_result.splits)

text \<open>
  C4, as stated, fails: float64 addition is not associative, and the order of the
  segments can change a total by far more than 1e-9. Three trips from the same place on
  the same day, of 9007199254740992000 m, 1000 m and 1000 m, add up to
  9007199254740992 km when the long trip comes first (each added kilometre is rounded
  away) and to 9007199254740994 km when it comes last.
\<close>

theorem order_changes_total:
  "mset hugeFirst = mset hugeLast \<and>
   bucket (countryDistancesByDay (runLoop usWorld hugeFirst)) ''us'' ''2024-03-01''
     = Some (Fin 9007199254740992) \<and>
   bucket (countryDistancesByDay (runLoop usWorld hugeLast)) ''us'' ''2024-03-01''
     = Some (Fin 9007199254740994) \<and>
   \<not> \<bar>9007199254740994 - 9007199254740992\<bar> \<le> (1 / 10 ^ 9 :: rat)"
proof -
  have a: "resolved usWorld 0 (extractSegments hugeFirst) =
        [(''us'', ''2024-03-01'', Fin 9007199254740992), (''us'', ''2024-03-01'', Fin 1),
         (''us'', ''2024-03-01'', Fin 1)]"
    by (simp add: hugeFirst_def extractSegments_def resolveSegment_usWorld ts_trips km_tripHuge km_tripKm)
  have b: "resolved usWorld 0 (extractSegments hugeLast) =
        [(''us'', ''2024-03-01'', Fin 1), (''us'', ''2024-03-01'', Fin 1),
         (''us'', ''2024-03-01'', Fin 9007199254740992)]"
    by (simp add: hugeLast_def extractSegments_def resolveSegment_usWorld ts_trips km_tripHuge km_tripKm)
  have "mset hugeFirst = mset hugeLast" by (simp add: hugeFirst_def hugeLast_def)
  moreover have "bucket (countryDistancesByDay (runLoop usWorld hugeFirst)) ''us'' ''2024-03-01''
     = Some (Fin 9007199254740992)"
    unfolding bucket_runLoop a by (simp add: contributions_def sum_hugeFirst del: foldl.simps)
  moreover have "bucket (countryDistancesByDay (runLoop usWorld hugeLast)) ''us'' ''2024-03-01''
     = Some (Fin 9007199254740994)"
    unfolding bucket_runLoop b by (simp add: contributions_def sum_hugeLast del: foldl.simps)
  moreover have "\<not> \<bar>9007199254740994 - 9007199254740992\<bar> \<le> (1 / 10 ^ 9 :: rat)" by simp
  ultimately show ?thesis by blast
qed

text \<open>
  C4, amended: two runs that resolve the same segments in a different order end with
  the same countries and the same buckets, and the two totals of a bucket are finite
  and differ by at most n * S / 2^51, where n (at most 2^52) is the number of segments
  in the bucket and S the sum of the absolute values of their kilometres.
\<close>

theorem totals_agree_within_bound:
  assumes perm: "mset (resolved w 0 (extractSegments objs)) = mset (resolved w' 0 (extractSegments objs'))"
    and n: "length (contributions (resolved w 0 (extractSegments objs)) country date) \<le> 2 ^ 52"
  shows "(countryDistancesByDay (runLoop w objs) country = None \<longleftrightarrow>
            countryDistancesByDay (runLoop w' objs') country = None) \<and>
         (let xs = contributions (resolved w 0 (extractSegments objs)) country date in
            if xs = [] then
              bucket (countryDistancesByDay (runLoop w objs)) country date = None \<and>
              bucket (countryDistancesByDay (runLoop w' objs')) country date = None
            else
              \<exists>a b. bucket (countryDistancesByDay (runLoop w objs)) country date = Some (Fin a) \<and>
                    bucket (countryDistancesByDay (runLoop w' objs')) country date = Some (Fin b) \<and>
                    \<bar>a - b\<bar> \<le> of_nat (length xs) * (\<Sum>x\<leftarrow>xs. \<bar>valof x\<bar>) / 2 ^ 51)"
proof -
  define rs where "rs = resolved w 0 (extractSegments objs)"
  define rs' where "rs' = resolved w' 0 (extractSegments objs')"
  define xs where "xs = contributions rs country date"
  define xs' where "xs' = contributions rs' country date"
  have m: "mset rs = mset rs'" using perm by (simp add: rs_def rs'_def)
  have mx: "mset xs = mset xs'"
    unfolding xs_def xs'_def contributions_def using m by simp
  have "set rs = set rs'" using m by (metis set_mset_mset)
  then have dom: "country \<in> fst ` set rs \<longleftrightarrow> country \<in> fst ` set rs'" by simp
  have c1: "countryDistancesByDay (runLoop w objs) country = None \<longleftrightarrow>
            countryDistancesByDay (runLoop w' objs') country = None"
    using aggregate_country[of rs country] aggregate_country[of rs' country] dom
    unfolding report_runLoop rs_def rs'_def by blast
  have km: "Fin (valof x) = x \<and> ongrid (valof x) \<and> \<bar>valof x\<bar> \<le> 2 ^ 55" if "x \<in> set xs" for x
  proof -
    from that obtain r where "r \<in> set rs" "x = snd (snd r)"
      by (auto simp: xs_def contributions_def)
    then obtain seg where "x = kilometres seg"
      using resolved_kilometres[of r w 0 "extractSegments objs"] by (auto simp: rs_def)
    then show ?thesis using kilometres_finite[of seg] by (auto simp: valof_def)
  qed
  have sx: "set xs' = set xs" using mx by (metis set_mset_mset)
  have fx: "map Fin (map valof xs) = xs"
    using km by (simp add: map_idI)
  have "Fin (valof x) = x" if "x \<in> set xs'" for x
    using km[of x] that sx by simp
  then have fx': "map Fin (map valof xs') = xs'"
    by (simp add: map_idI)
  have g: "\<forall>q\<in>set (map valof xs). ongrid q" using km by simp
  have b: "\<forall>q\<in>set (map valof xs). \<bar>q\<bar> \<le> 2 ^ 55" using km by simp
  have mv: "mset (map valof xs) = mset (map valof xs')" using mx by simp
  have nl: "length (map valof xs) \<le> 2 ^ 52" using n by (simp add: xs_def rs_def)
  from float_sum_reorder[OF mv g nl b] obtain s s' where
    s: "foldl fadd (Fin 0) xs = Fin s" and s': "foldl fadd (Fin 0) xs' = Fin s'"
    and e: "\<bar>s - s'\<bar> \<le> of_nat (length xs) * (\<Sum>x\<leftarrow>xs. \<bar>valof x\<bar>) / 2 ^ 51"
    unfolding fx fx' by (auto simp: comp_def)
  have e1: "xs' = [] \<longleftrightarrow> xs = []" using sx by (metis set_empty)
  have c2: "if xs = [] then
              bucket (countryDistancesByDay (runLoop w objs)) country date = None \<and>
              bucket (countryDistancesByDay (runLoop w' objs')) country date = None
            else
              \<exists>a b. bucket (countryDistancesByDay (runLoop w objs)) country date = Some (Fin a) \<and>
                    bucket (countryDistancesByDay (runLoop w' objs')) country date = Some (Fin b) \<and>
                    \<bar>a - b\<bar> \<le> of_nat (length xs) * (\<Sum>x\<leftarrow>xs. \<bar>valof x\<bar>) / 2 ^ 51"
    unfolding bucket_runLoop using s s' e e1
    by (simp add: xs_def[symmetric] xs'_def[symmetric] rs_def[symmetric] rs'_def[symmetric])
  show ?thesis unfolding Let_def using c1 c2[unfolded xs_def rs_def] by (rule conjI)
qed

theorem totals_agree_within_bound_witness:
  "mset (resolved usWorld 0 (extractSegments twoTrips))
     = mset (resolved usWorld 0 (extractSegments (rev twoTrips))) \<and>
   length (contributions (resolved usWorld 0 (extractSegments twoTrips)) ''us'' ''2024-03-01'')
     \<le> 2 ^ 52 \<and>
   (\<exists>a b. bucket (countryDistancesByDay (runLoop usWorld twoTrips)) ''us'' ''2024-03-01'' = Some (Fin a) \<and>
          bucket (countryDistancesByDay (runLoop usWorld (rev twoTrips))) ''us'' ''2024-03-01'' = Some (Fin b) \<and>
          \<bar>a - b\<bar> \<le> 2 * 6 / 2 ^ 51)"
proof -
  have a: "resolved usWorld 0 (extractSegments twoTrips) =
        [(''us'', ''2024-03-01'', Fin 5), (''us'', ''2024-03-01'', Fin 1)]"
    by (simp add: twoTrips_def extractSegments_def resolveSegment_usWorld ts_trips km_tripUS km_tripKm)
  have b: "resolved usWorld 0 (extractSegments (rev twoTrips)) =
        [(''us'', ''2024-03-01'', Fin 1), (''us'', ''2024-03-01'', Fin 5)]"
    by (simp add: twoTrips_def extractSegments_def resolveSegment_usWorld ts_trips km_tripUS km_tripKm)
  have p: "mset (resolved usWorld 0 (extractSegments twoTrips))
     = mset (resolved usWorld 0 (extractSegments (rev twoTrips)))"
    unfolding a b by simp
  have n: "length (contributions (resolved usWorld 0 (extractSegments twoTrips)) ''us'' ''2024-03-01'')
     \<le> 2 ^ 52"
    unfolding a by (simp add: contributions_def)
  have c: "contributions (resolved usWorld 0 (extractSegments twoTrips)) ''us'' ''2024-03-01''
        = [Fin 5, Fin 1]"
    unfolding a by (simp add: contributions_def)
  from totals_agree_within_bound[OF p n]
  have "\<exists>a b. bucket (countryDistancesByDay (runLoop usWorld twoTrips)) ''us'' ''2024-03-01'' = Some (Fin a) \<and>
          bucket (countryDistancesByDay (runLoop usWorld (rev twoTrips))) ''us'' ''2024-03-01'' = Some (Fin b) \<and>
          \<bar>a - b\<bar> \<le> 2 * 6 / 2 ^ 51"
    unfolding c by (simp add: Let_def valof_def)
  then show ?thesis using p n by blast
qed


text \<open>
  C5: when the lookup of a segment succeeds and its start timestamp parses, the one
  bucket the segment changes is the one under its country and the date written in the
  timestamp, its first ten characters YYYY-MM-DD: the day in the timestamp's own
  offset, whatever that offset is. Every date under which a run holds a bucket is the
  written date of one of its segments.
\<close>

theorem bucket_date_is_written_date:
  assumes "parseRFC3339 (StartTimestamp (Duration seg)) = Some t"
    and "getCountryCode (httpGet w (requests st)) (toFloatCoord (LatitudeE7 (StartLocation seg)))
           (toFloatCoord (LongitudeE7 (StartLocation seg))) = Inr country"
  shows "formatDate t = take 10 (StartTimestamp (Duration seg)) \<and>
         bucket (countryDistancesByDay (processSegment w st seg)) country
             (take 10 (StartTimestamp (Duration seg))) =
           Some (fadd (case bucket (countryDistancesByDay st) country
                              (take 10 (StartTimestamp (Duration seg))) of
                         None \<Rightarrow> Fin 0 | Some v \<Rightarrow> v)
                      (fdiv (float64_of_int64 (Distance seg)) (Fin 1000))) \<and>
         (\<forall>c d. (c, d) \<noteq> (country, take 10 (StartTimestamp (Duration seg))) \<longrightarrow>
            bucket (countryDistancesByDay (processSegment w st seg)) c d =
              bucket (countryDistancesByDay st) c d) \<and>
         (\<forall>objs c d. bucket (countryDistancesByDay (runLoop w objs)) c d \<noteq> None \<longrightarrow>
            (\<exists>x\<in>set (extractSegments objs).
               parseRFC3339 (StartTimestamp (Duration x)) \<noteq> None \<and>
               d = take 10 (StartTimestamp (Duration x))))"
proof -
  let ?ts = "StartTimestamp (Duration seg)"
  have f: "formatDate t = take 10 ?ts" by (rule formatDate_parse[OF assms(1)])
  have r: "resolveSegment w (requests st) seg =
             Some (country, take 10 ?ts, fdiv (float64_of_int64 (Distance seg)) (Fin 1000))"
    using assms f by (simp add: resolveSegment_def kilometres_def)
  have rep: "countryDistancesByDay (processSegment w st seg) =
               addDistance (countryDistancesByDay st) country (take 10 ?ts)
                 (fdiv (float64_of_int64 (Distance seg)) (Fin 1000))"
    by (simp add: report_processSegment r)
  have b: "bucket (countryDistancesByDay (processSegment w st seg)) country (take 10 ?ts) =
           Some (fadd (case bucket (countryDistancesByDay st) country (take 10 ?ts) of
                         None \<Rightarrow> Fin 0 | Some v \<Rightarrow> v)
                      (fdiv (float64_of_int64 (Distance seg)) (Fin 1000)))"
    unfolding rep by (simp add: bucket_addDistance)
  have o: "bucket (countryDistancesByDay (processSegment w st seg)) c d =
              bucket (countryDistancesByDay st) c d"
    if "(c, d) \<noteq> (country, take 10 ?ts)" for c d
  proof -
    from that have "\<not> (c = country \<and> d = take 10 ?ts)" by simp
    then show ?thesis unfolding rep bucket_addDistance by (simp only: if_False)
  qed
  have run: "\<exists>x\<in>set (extractSegments objs).
               parseRFC3339 (StartTimestamp (Duration x)) \<noteq> None \<and>
               d = take 10 (StartTimestamp (Duration x))"
    if "bucket (countryDistancesByDay (runLoop w objs)) c d \<noteq> None" for objs c d
  proof -
    from that have "matching w 0 (extractSegments objs) c d \<noteq> []"
      unfolding bucket_runLoop_matching by (simp split: if_splits)
    then obtain x where "x \<in> set (matching w 0 (extractSegments objs) c d)"
      by (cases "matching w 0 (extractSegments objs) c d") auto
    from set_matching[OF this] show ?thesis by blast
  qed
  show ?thesis using f b o run by blast
qed

theorem bucket_date_is_written_date_witness:
  "parseRFC3339 (StartTimestamp (Duration tripFR)) =
     Some \<lparr>year = 2024, month = 3, day = 1, hour = 9, minute = 0, second = 0, zoneOffset = 3600\<rparr> \<and>
   getCountryCode (httpGet usWorld (requests initial))
       (toFloatCoord (LatitudeE7 (StartLocation tripFR)))
       (toFloatCoord (LongitudeE7 (StartLocation tripFR))) = Inr ''us'' \<and>
   bucket (countryDistancesByDay (processSegment usWorld initial tripFR)) ''us'' ''2024-03-01''
     = Some (Fin 3) \<and>
   parseRFC3339 (StartTimestamp (Duration tripLate)) =
     Some \<lparr>year = 2024, month = 3, day = 1, hour = 0, minute = 30, second = 0, zoneOffset = 3600\<rparr> \<and>
   bucket (countryDistancesByDay (processSegment usWorld initial tripLate)) ''us'' ''2024-03-01''
     = Some (Fin 3) \<and>
   bucket (countryDistancesByDay (processSegment usWorld initial tripLate)) ''us'' ''2024-02-29''
     = None"
proof -
  have ts1: "StartTimestamp (Duration tripFR) = ''2024-03-01T09:00:00+01:00''"
    by (simp add: tripFR_def)
  have ts2: "StartTimestamp (Duration tripLate) = ''2024-03-01T00:30:00+01:00''"
    by (simp add: tripLate_def)
  have p1: "parseRFC3339 (StartTimestamp (Duration tripFR)) =
     Some \<lparr>year = 2024, month = 3, day = 1, hour = 9, minute = 0, second = 0, zoneOffset = 3600\<rparr>"
    unfolding ts1 by (rule parse_tripFR)
  have p2: "parseRFC3339 (StartTimestamp (Duration tripLate)) =
     Some \<lparr>year = 2024, month = 3, day = 1, hour = 0, minute = 30, second = 0, zoneOffset = 3600\<rparr>"
    unfolding ts2 by (rule parse_tripLate)
  have g: "getCountryCode (httpGet usWorld k) lat lng = Inr ''us''" for k lat lng
    by (simp add: getCountryCode_def usWorld_def)
  have d2: "Distance tripLate = Distance tripFR" by (simp add: tripLate_def)
  have b0: "bucket (countryDistancesByDay initial) c d = None" for c d
    by (simp add: initial_def bucket_def)
  have b1: "bucket (countryDistancesByDay (processSegment usWorld initial tripFR)) ''us'' ''2024-03-01''
     = Some (Fin 3)"
    using bucket_date_is_written_date[OF p1 g, of initial]
    unfolding ts1 by (simp add: b0 km_expr_tripFR fadd_0_3 del: fadd.simps)
  have b2: "bucket (countryDistancesByDay (processSegment usWorld initial tripLate)) ''us'' ''2024-03-01''
     = Some (Fin 3)"
    using bucket_date_is_written_date[OF p2 g, of initial]
    unfolding ts2 d2 by (simp add: b0 km_expr_tripFR fadd_0_3 del: fadd.simps)
  have b3: "bucket (countryDistancesByDay (processSegment usWorld initial tripLate)) ''us'' ''2024-02-29''
     = None"
    using bucket_date_is_written_date[OF p2 g, of initial]
    unfolding ts2 by (simp add: b0)
  show ?thesis using p1 p2 g b1 b2 b3 by simp
qed

text \<open>
  C6, amended: any two renderings of a report start with the same header line and
  write the same strings the same number of times; the block of a country starts with
  the line of that country and holds the same date lines. The order of the blocks and
  of the date lines within a block is the order in which \<open>range\<close> visits the maps,
  which differs from run to run.
\<close>

theorem rendering_up_to_order:
  assumes "rangeOrders m cs ds" and "rangeOrders m cs' ds'"
  shows "hd (renderReport cs ds m) = headerLine \<and> hd (renderReport cs' ds' m) = headerLine \<and>
         mset cs = mset cs' \<and>
         (\<forall>c\<in>dom m. hd (countryBlock ds m c) = countryLine c \<and>
                     hd (countryBlock ds' m c) = countryLine c \<and>
                     mset (countryBlock ds m c) = mset (countryBlock ds' m c)) \<and>
         mset (renderReport cs ds m) = mset (renderReport cs' ds' m)"
proof -
  have mc: "mset cs = mset cs'"
    using assms by (intro rangeOrder_mset[of m]) (simp_all add: rangeOrders_def)
  have blk: "hd (countryBlock ds m c) = countryLine c \<and>
             hd (countryBlock ds' m c) = countryLine c \<and>
             mset (countryBlock ds m c) = mset (countryBlock ds' m c)" if "c \<in> dom m" for c
  proof -
    from rangeOrders_inner[OF assms(1) that] obtain i where i: "m c = Some i" "rangeOrder i (ds c)"
      by blast
    from rangeOrders_inner[OF assms(2) that] i(1) have i': "rangeOrder i (ds' c)" by auto
    show ?thesis
      using hd_countryBlock[of m c i ds] hd_countryBlock[of m c i ds']
        mset_countryBlock[of m c i ds ds'] i i' by simp
  qed
  have "set cs = dom m" using assms(1) by (simp add: rangeOrders_def rangeOrder_def)
  then have "(\<Sum>c\<in>#mset cs. mset (countryBlock ds m c)) = (\<Sum>c\<in>#mset cs. mset (countryBlock ds' m c))"
    using blk by (intro arg_cong[where f = sum_mset] image_mset_cong) auto
  then have "mset (renderReport cs ds m) = mset (renderReport cs' ds' m)"
    by (simp add: renderReport_def mset_concat_map mc)
  then show ?thesis using mc blk by (simp add: renderReport_def)
qed

text \<open>
  C6, as stated, fails: for the report of the example, \<open>range\<close> may visit \<open>us\<close>
  before \<open>fr\<close> or \<open>fr\<close> before \<open>us\<close>, and the two texts differ.
\<close>

theorem rendering_order_differs:
  "rangeOrders (countryDistancesByDay (runLoop exampleWorld exampleObjects)) [''us'', ''fr''] oneDate \<and>
   rangeOrders (countryDistancesByDay (runLoop exampleWorld exampleObjects)) [''fr'', ''us''] oneDate \<and>
   renderReport [''us'', ''fr''] oneDate (countryDistancesByDay (runLoop exampleWorld exampleObjects))
     \<noteq> renderReport [''fr'', ''us''] oneDate (countryDistancesByDay (runLoop exampleWorld exampleObjects))"
  unfolding report_example
  by (auto simp: rangeOrders_def rangeOrder_def oneDate_def renderReport_def countryBlock_def
      countryLine_def)

theorem rendering_up_to_order_witness:
  "rangeOrders (countryDistancesByDay (runLoop exampleWorld exampleObjects)) [''us'', ''fr''] oneDate \<and>
   rangeOrders (countryDistancesByDay (runLoop exampleWorld exampleObjects)) [''fr'', ''us''] oneDate \<and>
   mset (renderReport [''us'', ''fr''] oneDate (countryDistancesByDay (runLoop exampleWorld exampleObjects)))
     = mset (renderReport [''fr'', ''us''] oneDate (countryDistancesByDay (runLoop exampleWorld exampleObjects)))"
proof -
  have a: "rangeOrders (countryDistancesByDay (runLoop exampleWorld exampleObjects)) [''us'', ''fr''] oneDate"
    unfolding report_example by (auto simp: rangeOrders_def rangeOrder_def oneDate_def)
  have b: "rangeOrders (countryDistancesByDay (runLoop exampleWorld exampleObjects)) [''fr'', ''us''] oneDate"
    unfolding report_example by (auto simp: rangeOrders_def rangeOrder_def oneDate_def)
  show ?thesis using rendering_up_to_order[OF a b] a b by blast
qed


text \<open>
  C7: the results of \<open>WriteString\<close> are dropped. The exit status does not depend on
  them, and with a full disk the run prints that the report was saved and exits with
  status 0, leaving an empty file; only a failure to create the file is fatal.
\<close>

theorem write_fault_is_ignored:
  "exitCode (main (w\<lparr>writeString := wr\<rparr>)) = exitCode (main w) \<and>
   exitCode (main fullDiskWorld) = 0 \<and>
   last (stdout (main fullDiskWorld)) = ReportSaved ''distance_report_2024-03-02.txt'' \<and>
   reportFile (main fullDiskWorld) = Some (''distance_report_2024-03-02.txt'', []) \<and>
   exitCode (main lockedWorld) = 1"
proof -
  have a: "exitCode (main fullDiskWorld) = 0"
    unfolding exitCode_main by (simp add: fullDiskWorld_def exampleWorld_def)
  have b: "last (stdout (main fullDiskWorld)) = ReportSaved ''distance_report_2024-03-02.txt''"
    by (simp add: main_def Let_def fullDiskWorld_def exampleWorld_def)
  have c: "reportFile (main fullDiskWorld) = Some (''distance_report_2024-03-02.txt'', [])"
    by (simp add: main_def Let_def fullDiskWorld_def exampleWorld_def written_all_fail)
  have d: "exitCode (main lockedWorld) = 1"
    unfolding exitCode_main by (simp add: lockedWorld_def exampleWorld_def)
  have e: "exitCode (main (w\<lparr>writeString := wr\<rparr>)) = exitCode (main w)"
    by (simp add: exitCode_main)
  show ?thesis using a b c d e by blast
qed

text \<open>
  C10: the distance is not checked. A segment with a negative distance that resolves
  and parses adds its negative kilometres, the rounded quotient distance / 1000.0, to
  its bucket.
\<close>

theorem negative_distance_is_added:
  assumes "resolveSegment w (requests st) seg = Some (country, date, km)"
    and "sint (Distance seg) < 0"
  shows "\<exists>r. km = Fin r \<and> r < 0 \<and>
           \<bar>r - of_int (sint (Distance seg)) / 1000\<bar>
             \<le> \<bar>of_int (sint (Distance seg)) / 1000\<bar> * (2 + 1 / 2 ^ 53) / 2 ^ 53 \<and>
           bucket (countryDistancesByDay (processSegment w st seg)) country date =
             Some (fadd (case bucket (countryDistancesByDay st) country date of
                           None \<Rightarrow> Fin 0 | Some v \<Rightarrow> v) (Fin r))"
proof -
  have km: "km = kilometres seg"
    using assms(1) by (auto simp: resolveSegment_def split: sum.splits option.splits)
  from kilometres_negative[OF assms(2)] obtain r where
    r: "kilometres seg = Fin r" "r < 0"
    "\<bar>r - of_int (sint (Distance seg)) / 1000\<bar>
       \<le> \<bar>of_int (sint (Distance seg)) / 1000\<bar> * (2 + 1 / 2 ^ 53) / 2 ^ 53"
    by blast
  have "bucket (countryDistancesByDay (processSegment w st seg)) country date =
          Some (fadd (case bucket (countryDistancesByDay st) country date of
                        None \<Rightarrow> Fin 0 | Some v \<Rightarrow> v) km)"
    by (simp add: report_processSegment assms(1) bucket_addDistance)
  then show ?thesis using km r by auto
qed


theorem negative_distance_is_added_witness:
  "resolveSegment usWorld (requests (processSegment usWorld initial tripUS)) tripBack
     = Some (''us'', ''2024-03-01'', Fin (- 1)) \<and>
   sint (Distance tripBack) < 0 \<and>
   bucket (countryDistancesByDay (processSegment usWorld initial tripUS)) ''us'' ''2024-03-01''
     = Some (Fin 5) \<and>
   bucket (countryDistancesByDay (processSegment usWorld (processSegment usWorld initial tripUS) tripBack))
      ''us'' ''2024-03-01'' = Some (Fin 4) \<and>
   bucket (countryDistancesByDay (processSegment usWorld initial tripBack)) ''us'' ''2024-03-01''
     = Some (Fin (- 1))"
proof -
  let ?st = "processSegment usWorld initial tripUS"
  have ts: "StartTimestamp (Duration tripBack) = ''2024-03-01T10:00:00-05:00''"
    by (simp add: tripBack_def tripUS_def)
  have r: "resolveSegment usWorld k tripBack = Some (''us'', ''2024-03-01'', Fin (- 1))" for k
    by (simp add: resolveSegment_usWorld[OF ts] km_tripBack)
  have n: "sint (Distance tripBack) < 0" by (simp add: tripBack_def)
  have b0: "bucket (countryDistancesByDay initial) ''us'' ''2024-03-01'' = None"
    by (simp add: initial_def bucket_def)
  have b5: "bucket (countryDistancesByDay ?st) ''us'' ''2024-03-01'' = Some (Fin 5)"
    by (simp add: report_processSegment resolveSegment_usWorld[OF ts_trips(1)] km_tripUS
        bucket_addDistance b0 fadd_0_5 del: fadd.simps)
  from negative_distance_is_added[OF r[of "requests ?st"] n]
  have b4: "bucket (countryDistancesByDay (processSegment usWorld ?st tripBack)) ''us'' ''2024-03-01''
              = Some (Fin 4)"
    by (simp add: b5 fadd_5_m1 del: fadd.simps)
  from negative_distance_is_added[OF r[of "requests initial"] n]
  have bm: "bucket (countryDistancesByDay (processSegment usWorld initial tripBack)) ''us'' ''2024-03-01''
              = Some (Fin (- 1))"
    by (simp add: b0 fadd_0_m1 del: fadd.simps)
  show ?thesis using r n b5 b4 bm by blast
qed


end
